theory Spec2Isabelle
  imports Complex_Main "HOL-Library.Sublist"
begin

unbundle bit_operations_syntax

section \<open>Embedding of the converters\<close>

text \<open>
  The two scripts \<^verbatim>\<open>GenesisBMP2HEX.py\<close> (image to assembly text) and
  \<^verbatim>\<open>GenesisHEX2BMP.py\<close> (assembly text to bitmap) are embedded function by
  function. Python integers are \<open>int\<close>, lists are lists, text is \<open>string\<close>, and
  every exception the code can raise is a value of \<open>py_error\<close> on the left of a sum.
\<close>

datatype py_error = IndexError | StructError

text \<open>The first error of a list of results, in order, or all the values.\<close>

fun sequence_err :: "('e + 'a) list \<Rightarrow> 'e + 'a list" where
  "sequence_err [] = Inr []"
| "sequence_err (Inl e # rs) = Inl e"
| "sequence_err (Inr v # rs) = (case sequence_err rs of Inl e \<Rightarrow> Inl e | Inr vs \<Rightarrow> Inr (v # vs))"

subsection \<open>Colour codec\<close>

text \<open>
  Python's \<^verbatim>\<open>round\<close> on one argument: the nearest integer, a tie going to the even
  neighbour. The argument \<^verbatim>\<open>r / 255 * 7\<close> is a float in the source; here it is the
  exact rational. For an integer \<open>r\<close> the exact value \<open>7 r / 255\<close> is at least
  \<open>1 / 510\<close> away from every half-integer (lemma \<open>py_round_scale\<close> shows that no tie
  occurs), which is far more than the rounding error of two float operations on
  channel values, so both roundings agree on the inputs the claims are about.
\<close>

definition py_round :: "rat \<Rightarrow> int" where
  "py_round x =
     (let f = \<lfloor>x\<rfloor>; d = x - of_int f
      in if d < 1 / 2 then f
         else if 1 / 2 < d then f + 1
         else if even f then f else f + 1)"

definition rgb_to_genesis_color :: "int \<Rightarrow> int \<Rightarrow> int \<Rightarrow> int" where
  "rgb_to_genesis_color r g b =
     (let genesis_r = py_round (of_int r / 255 * 7);
          genesis_g = py_round (of_int g / 255 * 7);
          genesis_b = py_round (of_int b / 255 * 7)
      in (push_bit 6 genesis_b OR push_bit 3 genesis_g) OR genesis_r)"

definition genesis_to_rgb :: "int \<Rightarrow> int \<times> int \<times> int" where
  "genesis_to_rgb color =
     (let r = push_bit 5 (color AND 0x007);
          g = push_bit 2 (color AND 0x038);
          b = drop_bit 1 (color AND 0x1C0)
      in (r, g, b))"

text \<open>Decoding a palette entry and encoding the result again.\<close>

definition reencode :: "int \<Rightarrow> int" where
  "reencode v = (case genesis_to_rgb v of (r, g, b) \<Rightarrow> rgb_to_genesis_color r g b)"

text \<open>What a 3-bit field becomes when it is decoded and encoded again.\<close>

definition roundtrip_field :: "int \<Rightarrow> int" where
  "roundtrip_field k = (if k \<le> 4 then k else k - 1)"

subsection \<open>Images of the imaging library\<close>

text \<open>
  A palette image of the imaging library: its size, its pixel grid (row \<open>y\<close>, column
  \<open>x\<close>) and the list that \<^verbatim>\<open>getpalette()\<close> returns. The library is not part of the
  repository, so the quantised image is an input of the model.
\<close>

record pimage =
  width :: nat
  height :: nat
  pix :: "nat \<Rightarrow> nat \<Rightarrow> int"
  getpalette :: "int list"

definition Image_new :: "nat \<Rightarrow> nat \<Rightarrow> int \<Rightarrow> pimage" where
  "Image_new w h c = \<lparr>width = w, height = h, pix = (\<lambda>y x. c), getpalette = []\<rparr>"

text \<open>\<^verbatim>\<open>dst.paste(src, (0, 0))\<close>: the source covers the top left corner.\<close>

definition paste :: "pimage \<Rightarrow> pimage \<Rightarrow> pimage" where
  "paste dst src =
     dst\<lparr>pix := (\<lambda>y x. if y < height src \<and> x < width src then pix src y x else pix dst y x)\<rparr>"

text \<open>\<^verbatim>\<open>img_array[y, x]\<close> on the array of an image, with the bounds check.\<close>

definition array_get :: "pimage \<Rightarrow> nat \<Rightarrow> nat \<Rightarrow> py_error + int" where
  "array_get img y x = (if y < height img \<and> x < width img then Inr (pix img y x) else Inl IndexError)"

subsection \<open>Palette builder\<close>

text \<open>
  The loop \<^verbatim>\<open>for i in range(0, 48, 3)\<close> over the first 48 palette components; reading
  \<^verbatim>\<open>palette_colors[i + 2]\<close> beyond the end of the list raises.
\<close>

fun palette_loop :: "int list \<Rightarrow> nat list \<Rightarrow> int list \<Rightarrow> py_error + int list" where
  "palette_loop palette_colors [] genesis_palette = Inr genesis_palette"
| "palette_loop palette_colors (i # is) genesis_palette =
     (if i + 2 < length palette_colors
      then palette_loop palette_colors is
             (genesis_palette @
                [rgb_to_genesis_color (palette_colors ! i) (palette_colors ! (i + 1))
                   (palette_colors ! (i + 2))])
      else Inl IndexError)"

text \<open>\<^verbatim>\<open>while len(genesis_palette) < 16: genesis_palette.append(0)\<close>\<close>

function pad_palette :: "int list \<Rightarrow> int list" where
  "pad_palette genesis_palette =
     (if length genesis_palette < 16 then pad_palette (genesis_palette @ [0]) else genesis_palette)"
  by pat_completeness auto
termination
  by (relation "measure (\<lambda>p. 16 - length p)") auto

declare pad_palette.simps [simp del]

text \<open>
  \<^verbatim>\<open>create_genesis_palette\<close>, from the quantised image on: the call of
  \<^verbatim>\<open>image.quantize\<close> belongs to the library.
\<close>

definition create_genesis_palette :: "pimage \<Rightarrow> py_error + (int list \<times> pimage)" where
  "create_genesis_palette quantized =
     (let palette_colors = take 48 (getpalette quantized)
      in case palette_loop palette_colors (map (\<lambda>k. 3 * k) [0..<16]) [] of
           Inl e \<Rightarrow> Inl e
         | Inr genesis_palette \<Rightarrow> Inr (pad_palette genesis_palette, quantized))"

subsection \<open>Tiler\<close>

text \<open>One tile: the loops over \<open>y\<close> and \<open>x\<close>, each pixel masked to four bits.\<close>

definition tile_at :: "pimage \<Rightarrow> nat \<Rightarrow> nat \<Rightarrow> py_error + int list" where
  "tile_at img_array tile_x tile_y =
     sequence_err
       (map (\<lambda>(y, x).
               case array_get img_array (tile_y * 8 + y) (tile_x * 8 + x) of
                 Inl e \<Rightarrow> Inl e
               | Inr pixel_value \<Rightarrow> Inr (pixel_value AND 0xF))
          (List.product [0..<8] [0..<8]))"

definition image_to_tiles :: "pimage \<Rightarrow> py_error + (int list list \<times> nat \<times> nat)" where
  "image_to_tiles img =
     (let new_width = ((width img + 7) div 8) * 8;
          new_height = ((height img + 7) div 8) * 8;
          img_array =
            (if new_width \<noteq> width img \<or> new_height \<noteq> height img
             then paste (Image_new new_width new_height 0) img
             else img);
          tiles_x = new_width div 8;
          tiles_y = new_height div 8
      in case sequence_err
                (map (\<lambda>(tile_y, tile_x). tile_at img_array tile_x tile_y)
                   (List.product [0..<tiles_y] [0..<tiles_x])) of
           Inl e \<Rightarrow> Inl e
         | Inr tiles \<Rightarrow> Inr (tiles, tiles_x, tiles_y))"

subsection \<open>Text formatting of integers\<close>

definition hex_digit_upper :: "nat \<Rightarrow> char" where
  "hex_digit_upper d = ''0123456789ABCDEF'' ! (d mod 16)"

fun to_hex_upper :: "nat \<Rightarrow> string" where
  "to_hex_upper n =
     (if n < 16 then [hex_digit_upper n] else to_hex_upper (n div 16) @ [hex_digit_upper (n mod 16)])"

declare to_hex_upper.simps [simp del]

fun to_decimal :: "nat \<Rightarrow> string" where
  "to_decimal n =
     (if n < 10 then [''0123456789'' ! n] else to_decimal (n div 10) @ [''0123456789'' ! (n mod 10)])"

declare to_decimal.simps [simp del]

definition zero_pad :: "nat \<Rightarrow> string \<Rightarrow> string" where
  "zero_pad w s = replicate (w - length s) (CHR ''0'') @ s"

text \<open>
  The format specification \<^verbatim>\<open>0wX\<close> of an f-string: upper-case hexadecimal digits,
  padded with zeros to \<open>w\<close> characters, the sign counting as one of them.
\<close>

definition format_X :: "nat \<Rightarrow> int \<Rightarrow> string" where
  "format_X w n =
     (if n < 0 then CHR ''-'' # zero_pad (w - 1) (to_hex_upper (nat (- n)))
      else zero_pad w (to_hex_upper (nat n)))"

text \<open>An integer in an f-string without a format specification: \<^verbatim>\<open>str\<close>.\<close>

definition str_int :: "int \<Rightarrow> string" where
  "str_int n = (if n < 0 then CHR ''-'' # to_decimal (nat (- n)) else to_decimal (nat n))"

text \<open>\<^verbatim>\<open>sep.join(xs)\<close>\<close>

fun py_join :: "string \<Rightarrow> string list \<Rightarrow> string" where
  "py_join sep [] = []"
| "py_join sep [x] = x"
| "py_join sep (x # y # xs) = x @ sep @ py_join sep (y # xs)"

subsection \<open>Tile codec\<close>

text \<open>
  The bytes of one tile in \<^verbatim>\<open>tiles_to_genesis_hex\<close>, before they are formatted:
  \<^verbatim>\<open>(tile[i] << 4) | tile[i + 1]\<close> for \<open>i = 0, 2, \<dots>, 62\<close>. A tile with fewer than 64
  entries raises at the first index beyond its end.
\<close>

definition tile_byte_values :: "int list \<Rightarrow> py_error + int list" where
  "tile_byte_values tile =
     (if length tile < 64 then Inl IndexError
      else Inr (map (\<lambda>k. push_bit 4 (tile ! (2 * k)) OR tile ! (2 * k + 1)) [0..<32]))"

definition tiles_to_genesis_hex :: "int list list \<Rightarrow> py_error + string list" where
  "tiles_to_genesis_hex tiles =
     (case sequence_err (map tile_byte_values tiles) of
        Inl e \<Rightarrow> Inl e
      | Inr bss \<Rightarrow> Inr (concat (map (map (format_X 2)) bss)))"

text \<open>
  The unpacking loop of \<^verbatim>\<open>create_bmp\<close>:
  \<^verbatim>\<open>row.append((byte >> 4) & 0x0F); row.append(byte & 0x0F)\<close> for each byte.
\<close>

definition unpack_nibbles :: "int list \<Rightarrow> int list" where
  "unpack_nibbles tile_row = concat (map (\<lambda>byte. [drop_bit 4 byte AND 0x0F, byte AND 0x0F]) tile_row)"

subsection \<open>Assembly formatter\<close>

text \<open>The dictionary that \<^verbatim>\<open>bitmap_to_genesis_hex\<close> returns, one field for each key.\<close>

record conversion =
  data_palette :: "int list"
  data_tile_data :: "string list"
  data_tiles_x :: int
  data_tiles_y :: int
  data_total_tiles :: int

text \<open>\<^verbatim>\<open>for i in range(0, len(tile_data), 16)\<close>: one line for each 16 entries.\<close>

fun tile_lines :: "string list \<Rightarrow> string list" where
  "tile_lines tile_data =
     (if tile_data = [] then []
      else (''    dc.b $'' @ py_join '', $'' (take 16 tile_data)) # tile_lines (drop 16 tile_data))"

declare tile_lines.simps [simp del]

definition format_output :: "conversion \<Rightarrow> string" where
  "format_output data =
     (let palette_hex = map (\<lambda>color. CHR ''$'' # format_X 4 color) (data_palette data);
          output =
            [''; Genesis Palette Data (16 colors)'', ''palette_data:'']
            @ map (\<lambda>i. ''    dc.w '' @ py_join '', '' (take 8 (drop i palette_hex))) [0, 8]
            @ [[]]
            @ [''; Genesis Tile Data'',
               ''; '' @ str_int (data_total_tiles data) @ '' tiles ('' @ str_int (data_tiles_x data)
                 @ ''x'' @ str_int (data_tiles_y data) @ '')'',
               ''tile_data:'']
            @ tile_lines (data_tile_data data)
      in py_join [CHR 0x0A] output)"

subsection \<open>Assembly parser\<close>

text \<open>
  The character classes of the regular expressions. The class of white space in a
  pattern on text holds, among the characters below 256, the codes 9 to 13, 28 to 32,
  133 and 160. Text is modelled with characters below 256.
\<close>

definition is_space :: "char \<Rightarrow> bool" where
  "is_space c =
     (let n = of_char c :: nat in (9 \<le> n \<and> n \<le> 13) \<or> (28 \<le> n \<and> n \<le> 32) \<or> n = 133 \<or> n = 160)"

definition is_hex :: "char \<Rightarrow> bool" where
  "is_hex c =
     (let n = of_char c :: nat in (48 \<le> n \<and> n \<le> 57) \<or> (65 \<le> n \<and> n \<le> 70) \<or> (97 \<le> n \<and> n \<le> 102))"

text \<open>The text after the first occurrence of a label, if there is one.\<close>

fun find_label :: "string \<Rightarrow> string \<Rightarrow> string option" where
  "find_label label [] = (if label = [] then Some [] else None)"
| "find_label label (c # cs) =
     (if prefix label (c # cs) then Some (drop (length label) (c # cs)) else find_label label cs)"

text \<open>
  The group \<^verbatim>\<open>(.*?)\<close> before the lookahead for a line feed and a character that is
  not white space, or for the end of the text, with \<^verbatim>\<open>re.DOTALL\<close>: the shortest text
  that ends before such a place.
\<close>

fun lazy_body :: "string \<Rightarrow> string" where
  "lazy_body [] = []"
| "lazy_body (c # cs) =
     (if c = CHR 0x0A \<and> cs \<noteq> [] \<and> \<not> is_space (hd cs) then [] else c # lazy_body cs)"

text \<open>
  \<^verbatim>\<open>re.findall\<close> of a label, a greedy run of white space and the group above, of
  which the code reads the first element only. The rest of the pattern matches after
  every white-space run, so the first match is the one with the whole run skipped.
\<close>

definition section_body :: "string \<Rightarrow> string \<Rightarrow> string option" where
  "section_body label content =
     (case find_label label content of
        None \<Rightarrow> None
      | Some rest \<Rightarrow> Some (lazy_body (dropWhile is_space rest)))"

text \<open>
  \<^verbatim>\<open>re.findall\<close> of a dollar sign and a group of \<open>lo\<close> to \<open>hi\<close> hexadecimal digits: at
  a dollar sign followed by at least \<open>lo\<close> digits, the first \<open>hi\<close> of them at most are
  one match and the scan goes on behind them; anywhere else it goes on with the next
  character.
\<close>

fun scan_literals :: "nat \<Rightarrow> nat \<Rightarrow> string \<Rightarrow> string list" where
  "scan_literals lo hi [] = []"
| "scan_literals lo hi (c # cs) =
     (let ds = takeWhile is_hex (take hi cs)
      in if c = CHR ''$'' \<and> lo \<le> length ds
         then ds # scan_literals lo hi (drop (length ds) cs)
         else scan_literals lo hi cs)"

declare scan_literals.simps(2) [simp del]

definition hex_value :: "char \<Rightarrow> int" where
  "hex_value c =
     (let n = of_char c :: nat
      in if n \<le> 57 then int n - 48 else if n \<le> 70 then int n - 55 else int n - 87)"

text \<open>\<^verbatim>\<open>int(match, 16)\<close> on a text of hexadecimal digits.\<close>

definition int16 :: "string \<Rightarrow> int" where
  "int16 s = foldl (\<lambda>acc c. 16 * acc + hex_value c) 0 s"

definition parse_genesis_assembly :: "string \<Rightarrow> int list \<times> int list" where
  "parse_genesis_assembly content =
     (let palette =
            (case section_body ''palette_data:'' content of
               None \<Rightarrow> []
             | Some body \<Rightarrow> map int16 (scan_literals 3 4 body));
          tile_data =
            (case section_body ''tile_data:'' content of
               None \<Rightarrow> []
             | Some body \<Rightarrow> map int16 (scan_literals 2 2 body))
      in (palette, tile_data))"

subsection \<open>Binary packing\<close>

text \<open>
  The format characters that \<^verbatim>\<open>struct.pack\<close> is called with: unsigned integers of
  one, two and four bytes and a pad byte. With \<^verbatim>\<open><\<close> the bytes are little-endian and
  unaligned; a value outside the range of its field raises \<^verbatim>\<open>struct.error\<close>.
\<close>

datatype fmt = B | H | L | Pad

fun fmt_size :: "fmt \<Rightarrow> nat" where
  "fmt_size B = 1"
| "fmt_size H = 2"
| "fmt_size L = 4"
| "fmt_size Pad = 1"

definition le_bytes :: "nat \<Rightarrow> int \<Rightarrow> int list" where
  "le_bytes n v = map (\<lambda>i. (v div 256 ^ i) mod 256) [0..<n]"

fun struct_pack :: "fmt list \<Rightarrow> int list \<Rightarrow> py_error + int list" where
  "struct_pack [] [] = Inr []"
| "struct_pack (Pad # fs) vs =
     (case struct_pack fs vs of Inl e \<Rightarrow> Inl e | Inr bs \<Rightarrow> Inr (0 # bs))"
| "struct_pack (f # fs) (v # vs) =
     (if 0 \<le> v \<and> v < 256 ^ fmt_size f
      then (case struct_pack fs vs of Inl e \<Rightarrow> Inl e | Inr bs \<Rightarrow> Inr (le_bytes (fmt_size f) v @ bs))
      else Inl StructError)"
| "struct_pack fs vs = Inl StructError"

text \<open>The unsigned little-endian integer of \<open>n\<close> bytes at an offset of a file.\<close>

definition read_le :: "int list \<Rightarrow> nat \<Rightarrow> nat \<Rightarrow> int" where
  "read_le bs off n = foldr (\<lambda>b acc. b + 256 * acc) (take n (drop off bs)) 0"

subsection \<open>Bitmap writer\<close>

text \<open>\<^verbatim>\<open>xs[a:b]\<close>: a slice is cut to the list and never raises.\<close>

definition py_slice :: "'a list \<Rightarrow> int \<Rightarrow> int \<Rightarrow> 'a list" where
  "py_slice xs a b =
     (let n = int (length xs);
          lo = (if a < 0 then max (a + n) 0 else min a n);
          hi = (if b < 0 then max (b + n) 0 else min b n)
      in take (nat (hi - lo)) (drop (nat lo) xs))"

text \<open>The loop over the palette: one entry of the colour table for each colour.\<close>

fun color_table_loop :: "int list \<Rightarrow> py_error + int list" where
  "color_table_loop [] = Inr []"
| "color_table_loop (color # rest) =
     (case genesis_to_rgb color of
        (r, g, b) \<Rightarrow>
          (case struct_pack [B, B, B, Pad] [min b 255, min g 255, min r 255] of
             Inl e \<Rightarrow> Inl e
           | Inr entry \<Rightarrow>
               (case color_table_loop rest of Inl e \<Rightarrow> Inl e | Inr tbl \<Rightarrow> Inr (entry @ tbl))))"

text \<open>
  \<^verbatim>\<open>for i in range(0, len(row), 2): packed_row.append((row[i] << 4) | row[i+1])\<close>.
  A row of odd length raises at its last element. The elements of a row are nibbles
  (lemma \<open>unpack_nibbles_range\<close>), so every packed value is a byte (lemma
  \<open>pack_pixels_bytes\<close>) and appending it to the byte array cannot fail.
\<close>

fun pack_pixels :: "int list \<Rightarrow> py_error + int list" where
  "pack_pixels [] = Inr []"
| "pack_pixels [p] = Inl IndexError"
| "pack_pixels (p # q # row) =
     (case pack_pixels row of Inl e \<Rightarrow> Inl e | Inr bs \<Rightarrow> Inr ((push_bit 4 p OR q) # bs))"

text \<open>One pixel row of the bitmap: the body of the loop over \<open>y\<close>.\<close>

definition bmp_row :: "int list \<Rightarrow> int \<Rightarrow> int \<Rightarrow> int \<Rightarrow> py_error + int list" where
  "bmp_row tile_data width_tiles ty y =
     (let row =
            concat
              (map (\<lambda>tx.
                      let tile_index = ty * width_tiles + tx;
                          tile_start = tile_index * 32;
                          tile_row = py_slice tile_data (tile_start + y * 4) (tile_start + y * 4 + 4)
                      in unpack_nibbles tile_row)
                 [0..width_tiles - 1])
      in case pack_pixels row of
           Inl e \<Rightarrow> Inl e
         | Inr packed_row \<Rightarrow>
             Inr (packed_row @ replicate (nat ((- int (length packed_row)) mod 4)) 0))"

text \<open>
  The bytes of the tile list that one pixel row is made of: the slices that the loop
  over \<open>tx\<close> takes, one after the other. A slice that reaches beyond the end of the
  list is shorter than four bytes or empty.
\<close>

definition tile_row_bytes :: "int list \<Rightarrow> int \<Rightarrow> int \<Rightarrow> int \<Rightarrow> int list" where
  "tile_row_bytes tile_data width_tiles ty y =
     concat
       (map (\<lambda>tx. py_slice tile_data ((ty * width_tiles + tx) * 32 + y * 4)
                    ((ty * width_tiles + tx) * 32 + y * 4 + 4))
          [0..width_tiles - 1])"

text \<open>A packed row with the zero bytes that fill it to a multiple of four.\<close>

definition padded_row :: "int list \<Rightarrow> int list" where
  "padded_row packed_row = packed_row @ replicate (nat ((- int (length packed_row)) mod 4)) 0"

record bmp_file =
  headers :: "int list"
  color_table :: "int list"
  pixel_data :: "int list"

text \<open>The bytes of the file, in the order of the three writes.\<close>

definition file_bytes :: "bmp_file \<Rightarrow> int list" where
  "file_bytes f = headers f @ color_table f @ pixel_data f"

text \<open>
  \<^verbatim>\<open>create_bmp\<close>. Its body never reads its parameter \<^verbatim>\<open>tiles\<close>: the pixel loop
  reads the module-level name \<^verbatim>\<open>tile_data\<close>, which is the first argument here. The
  result is what the function writes to the file at \<^verbatim>\<open>output_path\<close>.
\<close>

definition create_bmp :: "int list \<Rightarrow> int list \<Rightarrow> int list \<Rightarrow> int \<Rightarrow> int \<Rightarrow> py_error + bmp_file" where
  "create_bmp tile_data palette tiles width_tiles height_tiles =
     (let tile_size = 8;
          width_px = width_tiles * tile_size;
          height_px = height_tiles * tile_size
      in case struct_pack [H, L, H, H, L]
                [0x4D42, 54 + 64 + (width_px * height_px div 2), 0, 0, 54 + 64] of
           Inl e \<Rightarrow> Inl e
         | Inr file_header \<Rightarrow>
         (case struct_pack [L, L, L, H, H, L, L, L, L, L, L]
                 [40, width_px, height_px, 1, 4, 0, 0, 2835, 2835, 16, 16] of
            Inl e \<Rightarrow> Inl e
          | Inr info_header \<Rightarrow>
          (case color_table_loop palette of
             Inl e \<Rightarrow> Inl e
           | Inr entries \<Rightarrow>
           (case sequence_err
                   (map (\<lambda>(ty, y). bmp_row tile_data width_tiles ty y)
                      (List.product (rev [0..height_tiles - 1]) (rev [0..7]))) of
              Inl e \<Rightarrow> Inl e
            | Inr rows \<Rightarrow>
                Inr \<lparr>headers = file_header @ info_header,
                     color_table = entries @ replicate (nat (64 - int (length entries))) 0,
                     pixel_data = concat rows\<rparr>))))"

text \<open>The script: the parsed tile bytes are both the global and the argument.\<close>

definition hex2bmp_main :: "string \<Rightarrow> int \<Rightarrow> int \<Rightarrow> py_error + bmp_file" where
  "hex2bmp_main content width_tiles height_tiles =
     (case parse_genesis_assembly content of
        (palette, tile_data) \<Rightarrow> create_bmp tile_data palette tile_data width_tiles height_tiles)"

section \<open>Properties\<close>

subsection \<open>Colour codec\<close>

text \<open>Scaling a channel never meets a tie, so it is rounding to the nearest integer.\<close>

lemma py_round_scale: "py_round (of_int c / 255 * 7) = (14 * c + 255) div 510"
proof -
  define m where "m = (7 * c) mod 255"
  define q where "q = (7 * c) div 255"
  have x: "(of_int c / 255 * 7 :: rat) = of_int (7 * c) / of_int 255" by simp
  have fl: "\<lfloor>of_int c / 255 * 7 :: rat\<rfloor> = q"
    unfolding x q_def by (rule floor_divide_of_int_eq)
  have c7: "7 * c = 255 * q + m" by (simp add: m_def q_def)
  have d: "(of_int c / 255 * 7 :: rat) - of_int q = of_int m / 255"
    unfolding x c7 by (simp add: field_simps)
  have m: "0 \<le> m" "m < 255" by (simp_all add: m_def)
  have lt: "(of_int m / 255 < (1/2 :: rat)) = (2 * m < 255)"
    by (simp add: field_simps) linarith
  have gt: "((1/2 :: rat) < of_int m / 255) = (255 < 2 * m)"
    by (simp add: field_simps) linarith
  have ne: "2 * m \<noteq> 255" by presburger
  have r: "(14 * c + 255) div 510 = (if 2 * m < 255 then q else q + 1)"
    using c7 m by auto
  show ?thesis
    unfolding py_round_def Let_def fl d lt gt r using ne by auto
qed

lemma round_scale: "round (real_of_int c / 255 * 7) = (14 * c + 255) div 510"
proof -
  have "real_of_int c / 255 * 7 + 1 / 2 = real_of_int (14 * c + 255) / real_of_int 510"
    by (simp add: field_simps)
  then show ?thesis
    unfolding round_def by (simp only: floor_divide_of_int_eq)
qed

lemma scale_range: "0 \<le> c \<Longrightarrow> c \<le> 255 \<Longrightarrow> 0 \<le> (14 * c + 255) div 510 \<and> (14 * c + 255) div 510 \<le> 7"
  for c :: int
  by auto

lemma or_disjoint: 
  fixes hi lo :: int
  assumes "0 \<le> lo" "lo < 2 ^ k"
  shows "push_bit k hi OR lo = 2 ^ k * hi + lo"
proof -
  have lo: "take_bit k lo = lo" using assms by (simp add: take_bit_int_eq_self)
  have "push_bit k hi + take_bit k lo = push_bit k hi OR take_bit k lo"
    by (rule disjunctive_add) (auto simp: bit_simps)
  then show ?thesis by (simp add: lo push_bit_eq_mult mult.commute)
qed

lemma pack_fields:
  fixes r g b :: int
  assumes "0 \<le> r" "r \<le> 7" "0 \<le> g" "g \<le> 7"
  shows "(push_bit 6 b OR push_bit 3 g) OR r = 64 * b + 8 * g + r"
proof -
  have 1: "push_bit 3 g OR r = 2 ^ 3 * g + r"
    using assms by (intro or_disjoint) auto
  have 2: "push_bit 6 b OR (8 * g + r) = 2 ^ 6 * b + (8 * g + r)"
    using assms by (intro or_disjoint) auto
  show ?thesis using 1 2 by (simp add: or.assoc)
qed

lemma and_low3: "(c::int) AND 7 = c mod 8"
proof -
  have "c AND mask 3 = c mod 2 ^ 3"
    by (simp only: take_bit_eq_mask [symmetric] take_bit_eq_mod)
  then show ?thesis by (simp add: mask_eq_exp_minus_1)
qed

lemma and_field: "(c::int) AND push_bit k (mask 3) = push_bit k (take_bit 3 (drop_bit k c))"
  by (rule bit_eqI) (auto simp: bit_simps)

lemma and_mid3: "(c::int) AND 56 = 8 * (c div 8 mod 8)"
  using and_field [of c 3]
  by (simp add: mask_eq_exp_minus_1 push_bit_eq_mult take_bit_eq_mod drop_bit_eq_div)

lemma and_high3: "(c::int) AND 448 = 64 * (c div 64 mod 8)"
  using and_field [of c 6]
  by (simp add: mask_eq_exp_minus_1 push_bit_eq_mult take_bit_eq_mod drop_bit_eq_div)

lemma genesis_to_rgb_fields:
  "genesis_to_rgb v = (32 * (v mod 8), 32 * (v div 8 mod 8), 32 * (v div 64 mod 8))"
  by (simp add: genesis_to_rgb_def and_low3 and_mid3 and_high3 push_bit_eq_mult drop_bit_eq_div)

lemma rgb_to_genesis_color_arith:
  assumes "0 \<le> r" "r \<le> 255" "0 \<le> g" "g \<le> 255" "0 \<le> b" "b \<le> 255"
  shows "rgb_to_genesis_color r g b =
           64 * ((14 * b + 255) div 510) + 8 * ((14 * g + 255) div 510) + (14 * r + 255) div 510"
  unfolding rgb_to_genesis_color_def Let_def py_round_scale
  using scale_range [of r] scale_range [of g] assms
  by (intro pack_fields) auto

lemma field_cases: "0 \<le> k \<Longrightarrow> k \<le> 7 \<Longrightarrow> (14 * (32 * k) + 255) div 510 = roundtrip_field k" for k :: int
proof -
  assume "0 \<le> k" "k \<le> 7"
  then have "k = 0 \<or> k = 1 \<or> k = 2 \<or> k = 3 \<or> k = 4 \<or> k = 5 \<or> k = 6 \<or> k = 7" by arith
  then show ?thesis by (auto simp: roundtrip_field_def)
qed

lemma reencode_fields:
  "reencode v = 64 * roundtrip_field (v div 64 mod 8) + 8 * roundtrip_field (v div 8 mod 8)
      + roundtrip_field (v mod 8)"
proof -
  have b: "0 \<le> v mod 8" "v mod 8 \<le> 7" "0 \<le> v div 8 mod 8" "v div 8 mod 8 \<le> 7"
     "0 \<le> v div 64 mod 8" "v div 64 mod 8 \<le> 7" by simp_all
  have "reencode v = rgb_to_genesis_color (32 * (v mod 8)) (32 * (v div 8 mod 8)) (32 * (v div 64 mod 8))"
    by (simp add: reencode_def genesis_to_rgb_fields)
  also have "\<dots> = 64 * ((14 * (32 * (v div 64 mod 8)) + 255) div 510)
      + 8 * ((14 * (32 * (v div 8 mod 8)) + 255) div 510) + (14 * (32 * (v mod 8)) + 255) div 510"
    using b by (intro rgb_to_genesis_color_arith) auto
  finally show ?thesis using b by (simp only: field_cases)
qed

lemma color9_decompose:
  fixes v :: int
  assumes "0 \<le> v" "v \<le> 511"
  shows "v = 64 * (v div 64 mod 8) + 8 * (v div 8 mod 8) + v mod 8"
proof -
  have 1: "v mod (8 * 8) = 8 * (v div 8 mod 8) + v mod 8"
    by (rule zmod_zmult2_eq) simp
  have 2: "v mod (64 * 8) = 64 * (v div 64 mod 8) + v mod 64"
    by (rule zmod_zmult2_eq) simp
  have "v < 64 * 8" using assms by linarith
  with assms have 3: "v mod (64 * 8) = v" by (intro mod_pos_pos_trivial)
  have 4: "v mod (8 * 8) = v mod 64" by (simp only: mult_numeral_left_semiring_numeral numeral_times_numeral) simp
  from 1 2 3 4 show ?thesis by linarith
qed

lemma roundtrip_fields_eq:
  "(64 * roundtrip_field h + 8 * roundtrip_field m + roundtrip_field a = 64 * h + 8 * m + a)
      \<longleftrightarrow> a \<le> 4 \<and> m \<le> 4 \<and> h \<le> 4"
  by (auto simp: roundtrip_field_def)


lemma le_bytes_1: "0 \<le> v \<Longrightarrow> v < 256 \<Longrightarrow> le_bytes (Suc 0) v = [v]"
  by (simp add: le_bytes_def)

lemma pack_entry:
  assumes "0 \<le> b" "b < 256" "0 \<le> g" "g < 256" "0 \<le> r" "r < 256"
  shows "struct_pack [B, B, B, Pad] [b, g, r] = Inr [b, g, r, 0]"
  using assms by (simp add: le_bytes_1)

lemma color_table_loop_single:
  assumes "genesis_to_rgb v = (r, g, b)" "0 \<le> b" "b \<le> 255" "0 \<le> g" "g \<le> 255" "0 \<le> r" "r \<le> 255"
  shows "color_table_loop [v] = Inr [b, g, r, 0]"
proof -
  have m: "min b 255 = b" "min g 255 = g" "min r 255 = r"
    using assms by (simp_all only: min_absorb1)
  have p: "struct_pack [B, B, B, Pad] [b, g, r] = Inr [b, g, r, 0]"
    using assms by (intro pack_entry) linarith+
  show ?thesis
    by (simp only: color_table_loop.simps assms(1) prod.case m p sum.case append_Nil2)
qed

text \<open>
  C10: for every palette value \<open>v\<close> from 0 to 511, each channel that \<open>genesis_to_rgb\<close>
  returns is the 3-bit field of \<open>v\<close> times 32, so it is one of 0, 32, \<dots>, 224 and at
  most 255; the \<open>min\<close> with 255 in the colour-table loop leaves it as it is, and the
  entry written is blue, green, red and a zero byte.
\<close>

theorem genesis_to_rgb_channels:
  assumes "0 \<le> v" "v \<le> 511"
  shows "genesis_to_rgb v = (32 * (v mod 8), 32 * (v div 8 mod 8), 32 * (v div 64 mod 8))
    \<and> (case genesis_to_rgb v of
         (r, g, b) \<Rightarrow>
           r \<in> (\<lambda>k. 32 * k) ` {0..7} \<and> g \<in> (\<lambda>k. 32 * k) ` {0..7} \<and> b \<in> (\<lambda>k. 32 * k) ` {0..7}
           \<and> r \<le> 255 \<and> g \<le> 255 \<and> b \<le> 255
           \<and> min r 255 = r \<and> min g 255 = g \<and> min b 255 = b
           \<and> color_table_loop [v] = Inr [b, g, r, 0])"
proof -
  define r3 where "r3 = v mod 8"
  define g3 where "g3 = v div 8 mod 8"
  define b3 where "b3 = v div 64 mod 8"
  have f: "genesis_to_rgb v = (32 * r3, 32 * g3, 32 * b3)"
    unfolding r3_def g3_def b3_def by (rule genesis_to_rgb_fields)
  have b: "0 \<le> r3" "r3 \<le> 7" "0 \<le> g3" "g3 \<le> 7" "0 \<le> b3" "b3 \<le> 7"
    unfolding r3_def g3_def b3_def by simp_all
  have i: "32 * r3 \<in> (\<lambda>k. 32 * k) ` {0..7}" "32 * g3 \<in> (\<lambda>k. 32 * k) ` {0..7}"
      "32 * b3 \<in> (\<lambda>k. 32 * k) ` {0..7}"
    using b by (simp_all only: imageI atLeastAtMost_iff simp_thms)
  have le: "32 * r3 \<le> 255" "32 * g3 \<le> 255" "32 * b3 \<le> 255"
      "0 \<le> 32 * r3" "0 \<le> 32 * g3" "0 \<le> 32 * b3"
    using b by linarith+
  have m: "min (32 * r3) 255 = 32 * r3" "min (32 * g3) 255 = 32 * g3" "min (32 * b3) 255 = 32 * b3"
    using le by (simp_all only: min_absorb1)
  have ct: "color_table_loop [v] = Inr [32 * b3, 32 * g3, 32 * r3, 0]"
    using f le by (intro color_table_loop_single)
  show ?thesis
    unfolding f using i le m ct
    unfolding r3_def g3_def b3_def by (simp only: prod.case simp_thms)
qed

theorem genesis_to_rgb_channels_witness:
  "(0::int) \<le> 511 \<and> genesis_to_rgb 511 = (224, 224, 224)"
  using genesis_to_rgb_channels [of 511] by simp

text \<open>
  C5: for channels from 0 to 255, \<open>rgb_to_genesis_color\<close> returns the three channels
  scaled by 7/255 and rounded to the nearest integer, blue shifted by 6 and green by 3;
  each rounded channel is from 0 to 7 and the result from 0 to 511.
\<close>

theorem rgb_to_genesis_color_spec:
  assumes "0 \<le> r" "r \<le> 255" "0 \<le> g" "g \<le> 255" "0 \<le> b" "b \<le> 255"
  shows "rgb_to_genesis_color r g b =
           (push_bit 6 (round (real_of_int b / 255 * 7)) OR push_bit 3 (round (real_of_int g / 255 * 7)))
             OR round (real_of_int r / 255 * 7)
    \<and> 0 \<le> round (real_of_int r / 255 * 7) \<and> round (real_of_int r / 255 * 7) \<le> 7
    \<and> 0 \<le> round (real_of_int g / 255 * 7) \<and> round (real_of_int g / 255 * 7) \<le> 7
    \<and> 0 \<le> round (real_of_int b / 255 * 7) \<and> round (real_of_int b / 255 * 7) \<le> 7
    \<and> 0 \<le> rgb_to_genesis_color r g b \<and> rgb_to_genesis_color r g b \<le> 511"
proof -
  have e: "rgb_to_genesis_color r g b =
           (push_bit 6 (round (real_of_int b / 255 * 7)) OR push_bit 3 (round (real_of_int g / 255 * 7)))
             OR round (real_of_int r / 255 * 7)"
    unfolding rgb_to_genesis_color_def Let_def py_round_scale round_scale by (rule refl)
  note s = scale_range [OF assms(1,2)] scale_range [OF assms(3,4)] scale_range [OF assms(5,6)]
  have "0 \<le> rgb_to_genesis_color r g b \<and> rgb_to_genesis_color r g b \<le> 511"
    unfolding rgb_to_genesis_color_arith [OF assms] using s by linarith
  with e s show ?thesis unfolding round_scale by (simp only: simp_thms)
qed

theorem rgb_to_genesis_color_spec_witness:
  "0 \<le> rgb_to_genesis_color 255 128 0 \<and> rgb_to_genesis_color 255 128 0 \<le> 511"
  using rgb_to_genesis_color_spec [of 255 128 0] by simp

text \<open>
  C3, as stated: decoding the palette value 5 and encoding the result gives 4. The
  field 5 decodes to the channel 160, and 160 / 255 * 7 is about 4.39.
\<close>

theorem reencode_counterexample: "(0::int) \<le> 5 \<and> (5::int) \<le> 511 \<and> reencode 5 = 4 \<and> reencode 5 \<noteq> 5"
  by (simp add: reencode_fields roundtrip_field_def)

text \<open>
  C3, amended: for every palette value \<open>v\<close> from 0 to 511, decoding and encoding again
  keeps each 3-bit field that is at most 4 and lowers each field 5, 6 or 7 by one; the
  result is \<open>v\<close> exactly when all three fields are at most 4.
\<close>

theorem reencode_amended:
  assumes "0 \<le> v" "v \<le> 511"
  shows "reencode v = 64 * roundtrip_field (v div 64 mod 8) + 8 * roundtrip_field (v div 8 mod 8)
      + roundtrip_field (v mod 8) \<and>
    (reencode v = v \<longleftrightarrow> v mod 8 \<le> 4 \<and> v div 8 mod 8 \<le> 4 \<and> v div 64 mod 8 \<le> 4)"
proof -
  define a where "a = v mod 8"
  define m where "m = v div 8 mod 8"
  define h where "h = v div 64 mod 8"
  have v: "v = 64 * h + 8 * m + a"
    unfolding a_def m_def h_def by (rule color9_decompose [OF assms])
  have r: "reencode v = 64 * roundtrip_field h + 8 * roundtrip_field m + roundtrip_field a"
    unfolding a_def m_def h_def by (rule reencode_fields)
  have "(reencode v = v) \<longleftrightarrow> a \<le> 4 \<and> m \<le> 4 \<and> h \<le> 4"
    unfolding r using v roundtrip_fields_eq [of h m a] by (simp only:)
  with r show ?thesis unfolding a_def m_def h_def by (simp only: simp_thms)
qed

theorem reencode_amended_witness: "reencode 292 = 292 \<and> reencode 13 = 12"
  using reencode_amended [of 292] reencode_amended [of 13] by (simp add: roundtrip_field_def)

subsection \<open>Tile codec\<close>

lemma and_low4: "(c::int) AND 15 = c mod 16"
proof -
  have "c AND mask 4 = c mod 2 ^ 4"
    by (simp only: take_bit_eq_mask [symmetric] take_bit_eq_mod)
  then show ?thesis by (simp add: mask_eq_exp_minus_1)
qed

lemma nibble_pair:
  fixes p q :: int
  assumes "0 \<le> p" "p \<le> 15" "0 \<le> q" "q \<le> 15"
  shows "drop_bit 4 (push_bit 4 p OR q) AND 0x0F = p" "(push_bit 4 p OR q) AND 0x0F = q"
proof -
  have e: "push_bit 4 p OR q = 2 ^ 4 * p + q"
    using assms by (intro or_disjoint) auto
  show "drop_bit 4 (push_bit 4 p OR q) AND 0x0F = p"
    using assms unfolding e and_low4 drop_bit_eq_div by simp
  show "(push_bit 4 p OR q) AND 0x0F = q"
    using assms unfolding e and_low4 by simp
qed

lemma concat_pairs:
  "2 * n \<le> length t \<Longrightarrow> concat (map (\<lambda>k. [t ! (2 * k), t ! (2 * k + 1)]) [0..<n]) = take (2 * n) t"
proof (induction n)
  case 0
  then show ?case by simp
next
  case (Suc n)
  then have "take (2 * Suc n) t = take (2 * n) t @ [t ! (2 * n), t ! (2 * n + 1)]"
    by (simp add: take_Suc_conv_app_nth)
  with Suc show ?case by simp
qed

lemma unpack_nibbles_range: "p \<in> set (unpack_nibbles bs) \<Longrightarrow> 0 \<le> p \<and> p \<le> 15"
  by (auto simp: unpack_nibbles_def and_low4)

lemma pack_pixels_bytes:
  assumes "pack_pixels row = Inr bs" "\<forall>p \<in> set row. 0 \<le> p \<and> p \<le> 15"
  shows "\<forall>b \<in> set bs. 0 \<le> b \<and> b \<le> 255"
  using assms
proof (induction row arbitrary: bs rule: pack_pixels.induct)
  case 1
  then show ?case by simp
next
  case (2 p)
  then show ?case by simp
next
  case (3 p q row)
  from "3.prems"(1) obtain cs where cs: "pack_pixels row = Inr cs" "bs = (push_bit 4 p OR q) # cs"
    by (auto split: sum.splits)
  have pq: "0 \<le> p" "p \<le> 15" "0 \<le> q" "q \<le> 15" using "3.prems"(2) by simp_all
  then have "push_bit 4 p OR q = 2 ^ 4 * p + q" by (intro or_disjoint) auto
  with pq have "0 \<le> push_bit 4 p OR q \<and> push_bit 4 p OR q \<le> 255" by simp
  moreover have "\<forall>b \<in> set cs. 0 \<le> b \<and> b \<le> 255"
    using "3.IH" [OF cs(1)] "3.prems"(2) by simp
  ultimately show ?case using cs(2) by simp
qed

lemma tiles_to_genesis_hex_single:
  "tile_byte_values t = Inr bs \<Longrightarrow> tiles_to_genesis_hex [t] = Inr (map (format_X 2) bs)"
  by (simp add: tiles_to_genesis_hex_def)


text \<open>
  C1: for every tile of exactly 64 palette indices from 0 to 15, the packing loop gives
  32 bytes, and the unpacking loop of the bitmap writer gives the tile back from them.
\<close>

theorem unpack_pack_tile:
  assumes "length t = 64" "\<forall>p \<in> set t. 0 \<le> p \<and> p \<le> 15"
  shows "\<exists>bs. tile_byte_values t = Inr bs \<and> length bs = 32 \<and> unpack_nibbles bs = t"
proof -
  let ?bs = "map (\<lambda>k. push_bit 4 (t ! (2 * k)) OR t ! (2 * k + 1)) [0..<32]"
  have tb: "tile_byte_values t = Inr ?bs"
    using assms(1) by (simp add: tile_byte_values_def)
  have r: "0 \<le> t ! i \<and> t ! i \<le> 15" if "i < 64" for i
    using assms that by (metis nth_mem)
  have "unpack_nibbles ?bs = concat (map (\<lambda>k. [t ! (2 * k), t ! (2 * k + 1)]) [0..<32])"
    unfolding unpack_nibbles_def map_map comp_def
  proof (rule arg_cong [where f = concat], rule map_cong [OF refl])
    fix k assume "k \<in> set [0..<32]"
    then have k: "2 * k < 64" "2 * k + 1 < 64" by auto
    show "[drop_bit 4 (push_bit 4 (t ! (2 * k)) OR t ! (2 * k + 1)) AND 0x0F,
           (push_bit 4 (t ! (2 * k)) OR t ! (2 * k + 1)) AND 0x0F] = [t ! (2 * k), t ! (2 * k + 1)]"
      using r [OF k(1)] r [OF k(2)] by (simp only: nibble_pair)
  qed
  also have "\<dots> = take (2 * 32) t"
    using assms(1) by (intro concat_pairs) simp
  also have "\<dots> = t" using assms(1) by simp
  finally have "unpack_nibbles ?bs = t" .
  with tb show ?thesis by simp
qed

theorem unpack_pack_tile_witness:
  "\<exists>bs. tile_byte_values (replicate 64 5) = Inr bs \<and> length bs = 32 \<and> unpack_nibbles bs = replicate 64 5"
  using unpack_pack_tile [of "replicate 64 5"] by simp

subsection \<open>Palette builder\<close>

text \<open>
  With a palette list of at least 48 components from 0 to 255 the loop never reads
  beyond the end: the palette has 16 entries from 0 to 511, and the padding loop has
  nothing to add.
\<close>

lemma palette_loop_inside:
  "\<forall>i \<in> set is. i + 2 < length pc \<Longrightarrow>
   palette_loop pc is acc =
     Inr (acc @ map (\<lambda>i. rgb_to_genesis_color (pc ! i) (pc ! (i + 1)) (pc ! (i + 2))) is)"
  by (induction "is" arbitrary: acc) simp_all

lemma pad_palette_full: "length p = 16 \<Longrightarrow> pad_palette p = p"
  by (subst pad_palette.simps) simp

lemma create_genesis_palette_full:
  assumes "48 \<le> length (getpalette quantized)"
    and "\<forall>c \<in> set (getpalette quantized). 0 \<le> c \<and> c \<le> 255"
  shows "\<exists>p. create_genesis_palette quantized = Inr (p, quantized) \<and> length p = 16
           \<and> (\<forall>c \<in> set p. 0 \<le> c \<and> c \<le> 511)"
proof -
  let ?pc = "take 48 (getpalette quantized)"
  let ?p = "map (\<lambda>i. rgb_to_genesis_color (?pc ! i) (?pc ! (i + 1)) (?pc ! (i + 2)))
              (map (\<lambda>k. 3 * k) [0..<16])"
  have l: "length ?pc = 48" using assms(1) by simp
  have r: "0 \<le> ?pc ! i \<and> ?pc ! i \<le> 255" if "i < 48" for i
  proof -
    have "?pc ! i \<in> set ?pc" using that l by (intro nth_mem) simp
    then have "?pc ! i \<in> set (getpalette quantized)" by (rule in_set_takeD)
    with assms(2) show ?thesis by blast
  qed
  have "\<forall>i \<in> set (map (\<lambda>k. 3 * k) [0..<16::nat]). i + 2 < length ?pc"
    unfolding l by auto
  then have pl: "palette_loop ?pc (map (\<lambda>k. 3 * k) [0..<16]) [] = Inr ([] @ ?p)"
    by (rule palette_loop_inside)
  have len: "length ?p = 16" by simp
  have rng: "\<forall>c \<in> set ?p. 0 \<le> c \<and> c \<le> 511"
  proof
    fix c assume "c \<in> set ?p"
    then obtain k where k: "k < 16" "c = rgb_to_genesis_color (?pc ! (3 * k)) (?pc ! (3 * k + 1)) (?pc ! (3 * k + 2))"
      by auto
    have "3 * k < 48" "3 * k + 1 < 48" "3 * k + 2 < 48" using k(1) by simp_all
    then have "0 \<le> ?pc ! (3 * k) \<and> ?pc ! (3 * k) \<le> 255" "0 \<le> ?pc ! (3 * k + 1) \<and> ?pc ! (3 * k + 1) \<le> 255"
        "0 \<le> ?pc ! (3 * k + 2) \<and> ?pc ! (3 * k + 2) \<le> 255"
      by (simp_all only: r)
    then have "c = 64 * ((14 * (?pc ! (3 * k + 2)) + 255) div 510)
          + 8 * ((14 * (?pc ! (3 * k + 1)) + 255) div 510) + (14 * (?pc ! (3 * k)) + 255) div 510"
      and "0 \<le> (14 * (?pc ! (3 * k + 2)) + 255) div 510 \<and> (14 * (?pc ! (3 * k + 2)) + 255) div 510 \<le> 7"
      and "0 \<le> (14 * (?pc ! (3 * k + 1)) + 255) div 510 \<and> (14 * (?pc ! (3 * k + 1)) + 255) div 510 \<le> 7"
      and "0 \<le> (14 * (?pc ! (3 * k)) + 255) div 510 \<and> (14 * (?pc ! (3 * k)) + 255) div 510 \<le> 7"
      unfolding k(2) by (simp_all only: rgb_to_genesis_color_arith scale_range)
    then show "0 \<le> c \<and> c \<le> 511" by linarith
  qed
  show ?thesis
    unfolding create_genesis_palette_def Let_def pl
    using len rng by (simp add: pad_palette_full del: upt_Suc)
qed

text \<open>
  C7, at a failing input: a quantised image whose palette list holds one colour, as the
  imaging library returns it for an image of a single colour. The loop reads index 3 of
  a list of three components and raises, before the padding loop is reached.
\<close>

theorem create_genesis_palette_one_color:
  "create_genesis_palette \<lparr>width = 8, height = 8, pix = (\<lambda>y x. 0), getpalette = [255, 0, 0]\<rparr>
     = Inl IndexError"
  by (simp add: create_genesis_palette_def upt_rec)

subsection \<open>Tiler\<close>

lemma sequence_err_map_Inr: "sequence_err (map (\<lambda>x. Inr (f x)) xs) = Inr (map f xs)"
  by (induction xs) simp_all

lemma tile_at_inside:
  assumes "tile_y * 8 + 8 \<le> height img" "tile_x * 8 + 8 \<le> width img"
  shows "tile_at img tile_x tile_y =
           Inr (map (\<lambda>(y, x). pix img (tile_y * 8 + y) (tile_x * 8 + x) AND 0xF)
                  (List.product [0..<8] [0..<8]))"
proof -
  have "map (\<lambda>(y, x). case array_get img (tile_y * 8 + y) (tile_x * 8 + x) of
                 Inl e \<Rightarrow> Inl e
               | Inr pixel_value \<Rightarrow> (Inr (pixel_value AND 0xF) :: py_error + int))
          (List.product [0..<8] [0..<8])
      = map (\<lambda>p. Inr ((\<lambda>(y, x). pix img (tile_y * 8 + y) (tile_x * 8 + x) AND 0xF) p))
          (List.product [0..<8] [0..<8])"
    using assms by (intro map_cong [OF refl]) (auto simp: array_get_def)
  then show ?thesis
    unfolding tile_at_def by (simp only: sequence_err_map_Inr)
qed

lemma tile_at_nth:
  assumes "y < 8" "x < 8"
  shows "map (\<lambda>(y, x). f y x) (List.product [0..<8] [0..<8]) ! (y * 8 + x) = f y x"
proof -
  have "y * 8 + x < length [0..<8::nat] * length [0..<8::nat]" using assms by simp
  then have "List.product [0..<8] [0..<8] ! (y * 8 + x) = (y, x)"
    using assms by (simp add: product_nth)
  moreover have "y * 8 + x < length (List.product [0..<8::nat] [0..<8::nat])" using assms by simp
  ultimately show ?thesis by (simp only: nth_map) simp
qed


lemma product_upt_nth:
  assumes "i < m" "j < n"
  shows "map f (List.product [0..<m] [0..<n]) ! (i * n + j) = f (i, j)"
proof -
  have "i * n + j < Suc i * n" using assms by simp
  also have "\<dots> \<le> m * n" using assms by (intro mult_le_mono1) simp
  finally have l: "i * n + j < m * n" .
  then have "List.product [0..<m] [0..<n] ! (i * n + j) = (i, j)"
    using assms by (simp add: product_nth)
  with l show ?thesis by simp
qed

lemma padded_array:
  fixes img :: pimage
  defines "nw \<equiv> ((width img + 7) div 8) * 8" and "nh \<equiv> ((height img + 7) div 8) * 8"
  defines "arr \<equiv> (if nw \<noteq> width img \<or> nh \<noteq> height img then paste (Image_new nw nh 0) img else img)"
  shows "width arr = nw" "height arr = nh"
    "y < nh \<Longrightarrow> x < nw \<Longrightarrow> pix arr y x = (if y < height img \<and> x < width img then pix img y x else 0)"
  unfolding arr_def by (auto simp: paste_def Image_new_def)

lemma low4_id: "0 \<le> p \<Longrightarrow> p \<le> 15 \<Longrightarrow> p AND 0xF = p" for p :: int
proof -
  have "p AND mask 4 = p mod 2 ^ 4"
    by (simp only: take_bit_eq_mask [symmetric] take_bit_eq_mod)
  then show "0 \<le> p \<Longrightarrow> p \<le> 15 \<Longrightarrow> p AND 0xF = p" by (simp add: mask_eq_exp_minus_1)
qed

text \<open>
  C4: for an indexed image of width and height at least 1 with indices from 0 to 15,
  \<open>image_to_tiles\<close> returns \<open>ceil(W/8) * ceil(H/8)\<close> tiles; the tile of tile row \<open>ty\<close>
  and tile column \<open>tx\<close> is at position \<open>ty * tiles_x + tx\<close>, it has 64 entries, and its
  entry \<open>y * 8 + x\<close> is the pixel \<open>(tx * 8 + x, ty * 8 + y)\<close> of the image, or 0 outside
  the image.
\<close>

theorem image_to_tiles_layout:
  assumes "1 \<le> width img" "1 \<le> height img"
    and px: "\<forall>y < height img. \<forall>x < width img. 0 \<le> pix img y x \<and> pix img y x \<le> 15"
  shows "\<exists>tiles. image_to_tiles img = Inr (tiles, (width img + 7) div 8, (height img + 7) div 8)
     \<and> length tiles = ((width img + 7) div 8) * ((height img + 7) div 8)
     \<and> (\<forall>ty < (height img + 7) div 8. \<forall>tx < (width img + 7) div 8.
          length (tiles ! (ty * ((width img + 7) div 8) + tx)) = 64 \<and>
          (\<forall>y < 8. \<forall>x < 8.
             tiles ! (ty * ((width img + 7) div 8) + tx) ! (y * 8 + x) =
               (if ty * 8 + y < height img \<and> tx * 8 + x < width img
                then pix img (ty * 8 + y) (tx * 8 + x) else 0)))"
proof -
  define TX where "TX = (width img + 7) div 8"
  define TY where "TY = (height img + 7) div 8"
  define arr where "arr = (if TX * 8 \<noteq> width img \<or> TY * 8 \<noteq> height img
                           then paste (Image_new (TX * 8) (TY * 8) 0) img else img)"
  define g where "g = (\<lambda>(ty, tx). map (\<lambda>(y, x). pix arr (ty * 8 + y) (tx * 8 + x) AND 0xF)
                  (List.product [0..<8] [0..<8]))"
  have w: "width arr = TX * 8" and h: "height arr = TY * 8"
    and p: "\<And>y x. y < TY * 8 \<Longrightarrow> x < TX * 8 \<Longrightarrow>
              pix arr y x = (if y < height img \<and> x < width img then pix img y x else 0)"
    unfolding arr_def TX_def TY_def by (rule padded_array)+
  have "map (\<lambda>(tile_y, tile_x). tile_at arr tile_x tile_y) (List.product [0..<TY] [0..<TX])
      = map (\<lambda>q. Inr (g q)) (List.product [0..<TY] [0..<TX])"
  proof (rule map_cong [OF refl], clarify)
    fix ty tx assume "(ty, tx) \<in> set (List.product [0..<TY] [0..<TX])"
    then have "ty < TY" "tx < TX" by auto
    then have "ty * 8 + 8 \<le> height arr" "tx * 8 + 8 \<le> width arr"
      unfolding w h by auto
    then show "tile_at arr tx ty = Inr (g (ty, tx))"
      unfolding g_def by (simp only: tile_at_inside prod.case)
  qed
  then have sq: "sequence_err (map (\<lambda>(tile_y, tile_x). tile_at arr tile_x tile_y)
                   (List.product [0..<TY] [0..<TX]))
      = Inr (map g (List.product [0..<TY] [0..<TX]))"
    by (simp only: sequence_err_map_Inr)
  have t: "image_to_tiles img = Inr (map g (List.product [0..<TY] [0..<TX]), TX, TY)"
    unfolding image_to_tiles_def Let_def
    unfolding TX_def [symmetric] TY_def [symmetric] arr_def [symmetric]
    by (simp add: sq)
  have len: "length (map g (List.product [0..<TY] [0..<TX])) = TX * TY" by simp
  have tiles: "length (map g (List.product [0..<TY] [0..<TX]) ! (ty * TX + tx)) = 64 \<and>
          (\<forall>y < 8. \<forall>x < 8.
             map g (List.product [0..<TY] [0..<TX]) ! (ty * TX + tx) ! (y * 8 + x) =
               (if ty * 8 + y < height img \<and> tx * 8 + x < width img
                then pix img (ty * 8 + y) (tx * 8 + x) else 0))"
    if "ty < TY" "tx < TX" for ty tx
  proof -
    have n: "map g (List.product [0..<TY] [0..<TX]) ! (ty * TX + tx) = g (ty, tx)"
      using that by (rule product_upt_nth)
    have l: "length (g (ty, tx)) = 64" by (simp add: g_def)
    have e: "g (ty, tx) ! (y * 8 + x) =
               (if ty * 8 + y < height img \<and> tx * 8 + x < width img
                then pix img (ty * 8 + y) (tx * 8 + x) else 0)" if "y < 8" "x < 8" for y x
    proof -
      have "g (ty, tx) ! (y * 8 + x) = pix arr (ty * 8 + y) (tx * 8 + x) AND 0xF"
        unfolding g_def prod.case using that by (rule tile_at_nth)
      also have "pix arr (ty * 8 + y) (tx * 8 + x) =
          (if ty * 8 + y < height img \<and> tx * 8 + x < width img
                then pix img (ty * 8 + y) (tx * 8 + x) else 0)"
        using that \<open>ty < TY\<close> \<open>tx < TX\<close> by (intro p) auto
      finally show ?thesis using px by (auto simp: low4_id)
    qed
    show ?thesis unfolding n using l e by blast
  qed
  show ?thesis
    unfolding TX_def [symmetric] TY_def [symmetric]
    using t len tiles by blast
qed


theorem image_to_tiles_layout_witness:
  "\<exists>tiles. image_to_tiles \<lparr>width = 10, height = 9, pix = (\<lambda>y x. int ((x + y) mod 16)), getpalette = []\<rparr>
       = Inr (tiles, 2, 2) \<and> length tiles = 4"
proof -
  let ?img = "\<lparr>width = 10, height = 9, pix = (\<lambda>y x. int ((x + y) mod 16)), getpalette = []\<rparr>"
  have b: "a mod 16 \<le> 15" for a :: nat by arith
  have "1 \<le> width ?img" "1 \<le> height ?img"
    "\<forall>y < height ?img. \<forall>x < width ?img. 0 \<le> pix ?img y x \<and> pix ?img y x \<le> 15"
    by (simp_all add: b)
  from image_to_tiles_layout [OF this] show ?thesis by auto
qed

subsection \<open>Bitmap writer\<close>

lemma unpack_nibbles_append: "unpack_nibbles (a @ b) = unpack_nibbles a @ unpack_nibbles b"
  by (simp add: unpack_nibbles_def)

lemma unpack_nibbles_concat: "concat (map (\<lambda>x. unpack_nibbles (f x)) xs) = unpack_nibbles (concat (map f xs))"
  by (induction xs) (simp_all add: unpack_nibbles_append, simp add: unpack_nibbles_def)

lemma pack_pixels_unpack:
  "pack_pixels (unpack_nibbles bs) =
     Inr (map (\<lambda>byte. push_bit 4 (drop_bit 4 byte AND 0x0F) OR (byte AND 0x0F)) bs)"
  by (induction bs) (simp_all add: unpack_nibbles_def)

lemma bmp_row_total:
  "\<exists>bs. bmp_row tile_data width_tiles ty y = Inr bs"
  unfolding bmp_row_def Let_def unpack_nibbles_concat pack_pixels_unpack by simp

lemma sequence_err_all_Inr:
  "\<forall>r \<in> set rs. \<exists>v. r = Inr v \<Longrightarrow> \<exists>vs. sequence_err rs = Inr vs \<and> length vs = length rs"
proof (induction rs)
  case Nil
  show ?case by simp
next
  case (Cons r rs)
  then obtain v vs where "r = Inr v" "sequence_err rs = Inr vs" "length vs = length rs" by auto
  then show ?case by simp
qed

lemma color_table_loop_total:
  "color_table_loop palette =
     Inr (concat (map (\<lambda>v. [32 * (v div 64 mod 8), 32 * (v div 8 mod 8), 32 * (v mod 8), 0]) palette))"
proof (induction palette)
  case Nil
  show ?case by simp
next
  case (Cons v palette)
  have b: "0 \<le> v mod 8" "v mod 8 \<le> 7" "0 \<le> v div 8 mod 8" "v div 8 mod 8 \<le> 7"
     "0 \<le> v div 64 mod 8" "v div 64 mod 8 \<le> 7" by simp_all
  have le: "0 \<le> 32 * (v div 64 mod 8)" "32 * (v div 64 mod 8) \<le> 255"
      "0 \<le> 32 * (v div 8 mod 8)" "32 * (v div 8 mod 8) \<le> 255"
      "0 \<le> 32 * (v mod 8)" "32 * (v mod 8) \<le> 255"
    using b by linarith+
  have s: "color_table_loop [v] = Inr [32 * (v div 64 mod 8), 32 * (v div 8 mod 8), 32 * (v mod 8), 0]"
    using genesis_to_rgb_fields [of v] le by (rule color_table_loop_single)
  have "color_table_loop (v # palette) =
      (case color_table_loop [v] of Inl e \<Rightarrow> Inl e
       | Inr entry \<Rightarrow> (case color_table_loop palette of Inl e \<Rightarrow> Inl e | Inr tbl \<Rightarrow> Inr (entry @ tbl)))"
    by (simp split: prod.splits sum.splits)
  then show ?case unfolding s Cons.IH by simp
qed

lemma length_color_entries:
  "length (concat (map (\<lambda>v. [32 * (v div 64 mod 8), 32 * (v div 8 mod 8), 32 * (v mod 8), 0::int]) palette))
      = 4 * length palette"
  by (induction palette) simp_all

lemma create_bmp_total:
  assumes h1: "struct_pack [H, L, H, H, L]
                [0x4D42, 54 + 64 + (width_tiles * 8 * (height_tiles * 8) div 2), 0, 0, 54 + 64] = Inr fh"
    and h2: "struct_pack [L, L, L, H, H, L, L, L, L, L, L]
                 [40, width_tiles * 8, height_tiles * 8, 1, 4, 0, 0, 2835, 2835, 16, 16] = Inr ih"
  shows "\<exists>rows. sequence_err (map (\<lambda>(ty, y). bmp_row tile_data width_tiles ty y)
                      (List.product (rev [0..height_tiles - 1]) (rev [0..7]))) = Inr rows
     \<and> length rows = length (List.product (rev [0..height_tiles - 1]) (rev [0..7::int]))
     \<and> create_bmp tile_data palette tiles width_tiles height_tiles =
       Inr \<lparr>headers = fh @ ih,
           color_table =
             concat (map (\<lambda>v. [32 * (v div 64 mod 8), 32 * (v div 8 mod 8), 32 * (v mod 8), 0]) palette)
             @ replicate (64 - 4 * length palette) 0,
           pixel_data = concat rows\<rparr>"
proof -
  have "\<forall>r \<in> set (map (\<lambda>(ty, y). bmp_row tile_data width_tiles ty y)
                      (List.product (rev [0..height_tiles - 1]) (rev [0..7]))). \<exists>v. r = Inr v"
    using bmp_row_total by auto
  from sequence_err_all_Inr [OF this] obtain rows where
    r: "sequence_err (map (\<lambda>(ty, y). bmp_row tile_data width_tiles ty y)
                      (List.product (rev [0..height_tiles - 1]) (rev [0..7]))) = Inr rows"
      "length rows = length (List.product (rev [0..height_tiles - 1]) (rev [0..7::int]))"
    by auto
  show ?thesis
    using r unfolding create_bmp_def Let_def h1 h2 color_table_loop_total by (simp add: length_color_entries)
qed

lemma length_le_bytes: "length (le_bytes n v) = n"
  by (simp add: le_bytes_def)

lemma file_header_ok:
  assumes "0 \<le> fs" "fs < 2 ^ 32"
  shows "struct_pack [H, L, H, H, L] [0x4D42, fs, 0, 0, 54 + 64] =
           Inr ([66, 77] @ le_bytes 4 fs @ [0, 0, 0, 0, 118, 0, 0, 0])"
proof -
  have c: "le_bytes 2 0x4D42 = [66, 77]" "le_bytes 2 0 = [0, 0]" "le_bytes 4 118 = [118, 0, 0, 0]"
    by (simp_all add: le_bytes_def upt_rec)
  show ?thesis using assms by (simp add: c)
qed

lemma info_header_ok:
  assumes "0 \<le> wp" "wp < 2 ^ 32" "0 \<le> hp" "hp < 2 ^ 32"
  shows "struct_pack [L, L, L, H, H, L, L, L, L, L, L]
                 [40, wp, hp, 1, 4, 0, 0, 2835, 2835, 16, 16] =
           Inr ([40, 0, 0, 0] @ le_bytes 4 wp @ le_bytes 4 hp
                @ [1, 0, 4, 0, 0, 0, 0, 0, 0, 0, 0, 0, 19, 11, 0, 0, 19, 11, 0, 0, 16, 0, 0, 0, 16, 0, 0, 0])"
proof -
  have c: "le_bytes 4 40 = [40, 0, 0, 0]" "le_bytes 2 1 = [1, 0]" "le_bytes 2 4 = [4, 0]"
      "le_bytes 4 0 = [0, 0, 0, 0]" "le_bytes 4 2835 = [19, 11, 0, 0]" "le_bytes 4 16 = [16, 0, 0, 0]"
    by (simp_all add: le_bytes_def upt_rec)
  show ?thesis using assms by (simp add: c)
qed

text \<open>
  C9, as stated: with no tile bytes at all and a grid of one tile, \<open>create_bmp\<close> raises
  nothing. A slice beyond the end of the list is empty, so the rows are empty and the
  file is the headers, which still declare 150 bytes, and the colour table.
\<close>

theorem create_bmp_no_data_counterexample:
  "int (length ([] :: int list)) < 1 * 1 * 32 \<and>
   create_bmp [] [] [] 1 1 =
     Inr \<lparr>headers = [66, 77, 150, 0, 0, 0, 0, 0, 0, 0, 118, 0, 0, 0,
                     40, 0, 0, 0, 8, 0, 0, 0, 8, 0, 0, 0, 1, 0, 4, 0, 0, 0, 0, 0, 0, 0, 0, 0,
                     19, 11, 0, 0, 19, 11, 0, 0, 16, 0, 0, 0, 16, 0, 0, 0],
          color_table = replicate 64 0,
          pixel_data = []\<rparr>"
  by code_simp

lemma repack_byte:
  "push_bit 4 (drop_bit 4 byte AND 0x0F) OR (byte AND 0x0F) = byte mod 256" for byte :: int
proof -
  have lo: "0 \<le> byte mod 16" "byte mod 16 < 2 ^ 4" by simp_all
  have "push_bit 4 (byte div 16 mod 16) OR byte mod 16 = 2 ^ 4 * (byte div 16 mod 16) + byte mod 16"
    using lo by (rule or_disjoint)
  moreover have "byte mod (16 * 16) = 16 * (byte div 16 mod 16) + byte mod 16"
    by (rule zmod_zmult2_eq) simp
  ultimately show ?thesis
    by (simp add: and_low4 drop_bit_eq_div)
qed

lemma bmp_row_eq:
  "bmp_row tile_data width_tiles ty y =
     Inr (padded_row (map (\<lambda>byte. byte mod 256) (tile_row_bytes tile_data width_tiles ty y)))"
  unfolding bmp_row_def Let_def unpack_nibbles_concat pack_pixels_unpack repack_byte
  by (simp add: padded_row_def tile_row_bytes_def)

lemma create_bmp_rows:
  assumes h1: "struct_pack [H, L, H, H, L]
                [0x4D42, 54 + 64 + (width_tiles * 8 * (height_tiles * 8) div 2), 0, 0, 54 + 64] = Inr fh"
    and h2: "struct_pack [L, L, L, H, H, L, L, L, L, L, L]
                 [40, width_tiles * 8, height_tiles * 8, 1, 4, 0, 0, 2835, 2835, 16, 16] = Inr ih"
  shows "create_bmp tile_data palette tiles width_tiles height_tiles =
       Inr \<lparr>headers = fh @ ih,
           color_table =
             concat (map (\<lambda>v. [32 * (v div 64 mod 8), 32 * (v div 8 mod 8), 32 * (v mod 8), 0]) palette)
             @ replicate (64 - 4 * length palette) 0,
           pixel_data =
             concat (map (\<lambda>(ty, y). padded_row (map (\<lambda>byte. byte mod 256)
                                          (tile_row_bytes tile_data width_tiles ty y)))
                       (List.product (rev [0..height_tiles - 1]) (rev [0..7])))\<rparr>"
proof -
  have "map (\<lambda>(ty, y). bmp_row tile_data width_tiles ty y)
            (List.product (rev [0..height_tiles - 1]) (rev [0..7]))
      = map (\<lambda>q. Inr ((\<lambda>(ty, y). padded_row (map (\<lambda>byte. byte mod 256)
                                          (tile_row_bytes tile_data width_tiles ty y))) q))
            (List.product (rev [0..height_tiles - 1]) (rev [0..7]))"
    by (intro map_cong [OF refl]) (auto simp: bmp_row_eq)
  then have sq: "sequence_err (map (\<lambda>(ty, y). bmp_row tile_data width_tiles ty y)
            (List.product (rev [0..height_tiles - 1]) (rev [0..7])))
      = Inr (map (\<lambda>(ty, y). padded_row (map (\<lambda>byte. byte mod 256)
                                          (tile_row_bytes tile_data width_tiles ty y)))
            (List.product (rev [0..height_tiles - 1]) (rev [0..7])))"
    by (simp only: sequence_err_map_Inr)
  show ?thesis
    unfolding create_bmp_def Let_def h1 h2 color_table_loop_total sq
    by (simp add: length_color_entries)
qed

lemma length_py_slice4:
  assumes "0 \<le> a"
  shows "length (py_slice xs a (a + 4)) \<le> 4"
    and "int (length xs) < a + 4 \<Longrightarrow> length (py_slice xs a (a + 4)) < 4"
proof -
  have l: "length (py_slice xs a (a + 4))
      = min (nat (min (a + 4) (int (length xs)) - min a (int (length xs))))
            (length xs - nat (min a (int (length xs))))"
    using assms by (simp add: py_slice_def Let_def)
  show "length (py_slice xs a (a + 4)) \<le> 4" unfolding l by linarith
  show "length (py_slice xs a (a + 4)) < 4" if "int (length xs) < a + 4"
    unfolding l using that assms by linarith
qed

lemma length_slices_le:
  assumes "\<forall>tx \<in> set txs. 0 \<le> f tx"
  shows "length (concat (map (\<lambda>tx. py_slice xs (f tx) (f tx + 4)) txs)) \<le> 4 * length txs"
  using assms
proof (induction txs)
  case Nil
  show ?case by simp
next
  case (Cons tx txs)
  then have "length (py_slice xs (f tx) (f tx + 4)) \<le> 4" by (intro length_py_slice4) simp
  with Cons show ?case by simp
qed

lemma short_first_row:
  assumes "0 \<le> width_tiles" "0 \<le> height_tiles"
    and "int (length tile_data) < width_tiles * height_tiles * 32"
  shows "int (length (tile_row_bytes tile_data width_tiles (height_tiles - 1) 7)) < 4 * width_tiles"
proof -
  have pos: "0 < width_tiles * height_tiles" using assms(3) by linarith
  have w: "1 \<le> width_tiles" using pos assms(1,2) by (auto simp: zero_less_mult_iff)
  have h: "1 \<le> height_tiles" using pos assms(1,2) by (auto simp: zero_less_mult_iff)
  define f where "f = (\<lambda>tx. ((height_tiles - 1) * width_tiles + tx) * 32 + 7 * 4)"
  have sp: "[0..width_tiles - 1] = [0..width_tiles - 1 - 1] @ [width_tiles - 1]"
    using w by (intro upto_rec2) simp
  have e: "tile_row_bytes tile_data width_tiles (height_tiles - 1) 7
      = concat (map (\<lambda>tx. py_slice tile_data (f tx) (f tx + 4)) [0..width_tiles - 1 - 1])
        @ py_slice tile_data (f (width_tiles - 1)) (f (width_tiles - 1) + 4)"
    unfolding tile_row_bytes_def f_def by (subst sp) simp
  have nn: "0 \<le> f tx" if "0 \<le> tx" for tx
    unfolding f_def using that h assms(1) by simp
  have "\<forall>tx \<in> set [0..width_tiles - 1 - 1]. 0 \<le> f tx" using nn by simp
  then have a: "length (concat (map (\<lambda>tx. py_slice tile_data (f tx) (f tx + 4)) [0..width_tiles - 1 - 1]))
      \<le> 4 * length [0..width_tiles - 1 - 1]"
    by (rule length_slices_le)
  have len: "int (length [0..width_tiles - 1 - 1]) = width_tiles - 1" using w by simp
  have "f (width_tiles - 1) + 4 = width_tiles * height_tiles * 32"
    unfolding f_def by (simp add: algebra_simps)
  then have "int (length tile_data) < f (width_tiles - 1) + 4" using assms(3) by simp
  moreover have "0 \<le> f (width_tiles - 1)" using w by (intro nn) simp
  ultimately have b: "length (py_slice tile_data (f (width_tiles - 1)) (f (width_tiles - 1) + 4)) < 4"
    by (intro length_py_slice4) simp_all
  define A where "A = length (concat (map (\<lambda>tx. py_slice tile_data (f tx) (f tx + 4)) [0..width_tiles - 1 - 1]))"
  define B where "B = length (py_slice tile_data (f (width_tiles - 1)) (f (width_tiles - 1) + 4))"
  define n where "n = length [0..width_tiles - 1 - 1]"
  have 1: "A \<le> 4 * n" using a unfolding A_def n_def .
  have 2: "B < 4" using b unfolding B_def .
  have 3: "int n = width_tiles - 1" using len unfolding n_def .
  have 4: "length (tile_row_bytes tile_data width_tiles (height_tiles - 1) 7) = A + B"
    unfolding e A_def B_def by simp
  have "int (A + B) < 4 * width_tiles" using 1 2 3 by linarith
  then show ?thesis unfolding 4 .
qed


text \<open>
  C9, amended: for every tile byte list shorter than \<open>width_tiles * height_tiles * 32\<close>,
  with tile dimensions whose header fields fit their 32 bits, \<open>create_bmp\<close> raises no
  error: it returns the file with its 54 header bytes, its colour table of at least 64
  bytes and the pixel rows that the bytes at hand give. Each row, from the last line of
  the last tile row backwards, is made of the slices of the list for that line, every
  byte taken modulo 256, and filled with zero bytes to a multiple of four; the row
  written first holds fewer than \<open>4 * width_tiles\<close> bytes of the list.
\<close>

theorem create_bmp_short_data:
  assumes "0 \<le> width_tiles" "0 \<le> height_tiles"
    and "width_tiles * 8 < 2 ^ 32" "height_tiles * 8 < 2 ^ 32"
    and "54 + 64 + (width_tiles * 8 * (height_tiles * 8) div 2) < 2 ^ 32"
    and "int (length tile_data) < width_tiles * height_tiles * 32"
  shows "\<exists>f. create_bmp tile_data palette tiles width_tiles height_tiles = Inr f
           \<and> length (headers f) = 54 \<and> 64 \<le> length (color_table f)
           \<and> pixel_data f =
               concat (map (\<lambda>(ty, y). padded_row (map (\<lambda>byte. byte mod 256)
                                            (tile_row_bytes tile_data width_tiles ty y)))
                         (List.product (rev [0..height_tiles - 1]) (rev [0..7])))
           \<and> int (length (tile_row_bytes tile_data width_tiles (height_tiles - 1) 7))
               < 4 * width_tiles"
proof -
  have "0 \<le> width_tiles * 8 * (height_tiles * 8)" using assms(1,2) by simp
  then have fs: "0 \<le> 54 + 64 + (width_tiles * 8 * (height_tiles * 8) div 2)"
    by (simp add: pos_imp_zdiv_nonneg_iff)
  have w: "0 \<le> width_tiles * 8" "0 \<le> height_tiles * 8" using assms(1,2) by simp_all
  note h1 = file_header_ok [OF fs assms(5)]
  note h2 = info_header_ok [OF w(1) assms(3) w(2) assms(4)]
  note c = create_bmp_rows [OF h1 h2, of tile_data palette tiles]
  note s = short_first_row [OF assms(1,2,6)]
  show ?thesis
    unfolding c using s by (simp add: length_le_bytes length_color_entries)
qed

theorem create_bmp_short_data_witness:
  "\<exists>f. create_bmp [1, 2, 3] [] [] 2 1 = Inr f \<and> length (headers f) = 54
       \<and> 64 \<le> length (color_table f)
       \<and> int (length (tile_row_bytes [1, 2, 3] 2 0 7)) < 8"
  using create_bmp_short_data [of 2 1 "[1, 2, 3]" "[]" "[]"] by auto

lemma py_slice_len4:
  assumes "0 \<le> a" "a + 4 \<le> int (length xs)"
  shows "length (py_slice xs a (a + 4)) = 4"
proof -
  have "nat a + 4 \<le> length xs" using assms by linarith
  moreover have "min (a + 4) (int (length xs)) - min a (int (length xs)) = 4" using assms by linarith
  ultimately show ?thesis using assms by (simp add: py_slice_def Let_def)
qed

lemma bmp_row_one:
  assumes "0 \<le> y" "y * 4 + 4 \<le> int (length tile_data)"
  shows "\<exists>bs. bmp_row tile_data 1 0 y = Inr bs \<and> length bs = 4"
proof -
  have "length (py_slice tile_data (y * 4) (y * 4 + 4)) = 4"
    using assms by (intro py_slice_len4) simp_all
  then show ?thesis
    unfolding bmp_row_def Let_def unpack_nibbles_concat pack_pixels_unpack by simp
qed

lemma sequence_err_concat_length:
  assumes "\<forall>r \<in> set rs. \<exists>v. r = Inr v \<and> length v = n" "sequence_err rs = Inr vs"
  shows "length (concat vs) = n * length rs"
  using assms
proof (induction rs arbitrary: vs)
  case Nil
  then show ?case by simp
next
  case (Cons r rs)
  then obtain v where v: "r = Inr v" "length v = n" by auto
  with Cons.prems(2) obtain ws where ws: "sequence_err rs = Inr ws" "vs = v # ws"
    by (auto split: sum.splits)
  with Cons v show ?case by simp
qed


lemma read_le_prefix:
  "off + n \<le> length hs \<Longrightarrow> read_le (hs @ rest) off n = read_le hs off n"
  by (simp add: read_le_def)

text \<open>
  C6: for a grid of one tile, a palette of 16 entries and the 32 bytes of the tile,
  \<open>create_bmp\<close> writes 54 + 64 + 32 = 150 bytes; the header holds the signature, the
  file size 150, the pixel data offset 118, the header size 40, width and height 8, one
  plane, 4 bits per pixel, compression 0 and 16 colours used and important.
\<close>

theorem create_bmp_one_tile:
  assumes "length palette = 16" "32 \<le> length tile_data"
  shows "\<exists>f. create_bmp tile_data palette tiles 1 1 = Inr f
     \<and> length (file_bytes f) = 54 + 64 + 32
     \<and> length (headers f) = 54 \<and> length (color_table f) = 64 \<and> length (pixel_data f) = 32
     \<and> take 2 (file_bytes f) = [0x42, 0x4D]
     \<and> read_le (file_bytes f) 2 4 = 150
     \<and> read_le (file_bytes f) 10 4 = 118
     \<and> read_le (file_bytes f) 14 4 = 40
     \<and> read_le (file_bytes f) 18 4 = 8
     \<and> read_le (file_bytes f) 22 4 = 8
     \<and> read_le (file_bytes f) 26 2 = 1
     \<and> read_le (file_bytes f) 28 2 = 4
     \<and> read_le (file_bytes f) 30 4 = 0
     \<and> read_le (file_bytes f) 46 4 = 16
     \<and> read_le (file_bytes f) 50 4 = 16"
proof -
  let ?fh = "[66, 77, 150, 0, 0, 0, 0, 0, 0, 0, 118, 0, 0, 0] :: int list"
  let ?ih = "[40, 0, 0, 0, 8, 0, 0, 0, 8, 0, 0, 0, 1, 0, 4, 0, 0, 0, 0, 0, 0, 0, 0, 0,
              19, 11, 0, 0, 19, 11, 0, 0, 16, 0, 0, 0, 16, 0, 0, 0] :: int list"
  let ?tbl = "concat (map (\<lambda>v. [32 * (v div 64 mod 8), 32 * (v div 8 mod 8), 32 * (v mod 8), 0]) palette)
             @ replicate (64 - 4 * length palette) 0"
  have h1: "struct_pack [H, L, H, H, L] [0x4D42, 54 + 64 + ((1::int) * 8 * (1 * 8) div 2), 0, 0, 54 + 64]
      = Inr ?fh"
    by (simp add: le_bytes_def upt_rec)
  have h2: "struct_pack [L, L, L, H, H, L, L, L, L, L, L]
                 [40, (1::int) * 8, 1 * 8, 1, 4, 0, 0, 2835, 2835, 16, 16] = Inr ?ih"
    by (simp add: le_bytes_def upt_rec)
  from create_bmp_total [OF h1 h2, of tile_data palette tiles] obtain rows where
    sq: "sequence_err (map (\<lambda>(ty, y). bmp_row tile_data 1 ty y)
              (List.product (rev [0..1 - 1]) (rev [0..7]))) = Inr rows"
    and cb: "create_bmp tile_data palette tiles 1 1 =
       Inr \<lparr>headers = ?fh @ ?ih, color_table = ?tbl, pixel_data = concat rows\<rparr>"
    by blast
  have "\<forall>r \<in> set (map (\<lambda>(ty, y). bmp_row tile_data 1 ty y)
              (List.product (rev [0..1 - 1]) (rev [0..7]))). \<exists>v. r = Inr v \<and> length v = 4"
  proof clarsimp
    fix y :: int assume "0 \<le> y" "y \<le> 7"
    then show "\<exists>v. bmp_row tile_data 1 0 y = Inr v \<and> length v = 4"
      using assms(2) by (intro bmp_row_one) linarith+
  qed
  from sequence_err_concat_length [OF this sq] have px: "length (concat rows) = 32" by simp
  have tl: "length ?tbl = 64" using assms(1) by (simp add: length_color_entries)
  define f where "f = \<lparr>headers = ?fh @ ?ih, color_table = ?tbl, pixel_data = concat rows\<rparr>"
  have fb: "file_bytes f = (?fh @ ?ih) @ (?tbl @ concat rows)"
    by (simp add: f_def file_bytes_def)
  have rd: "read_le (file_bytes f) off n = read_le (?fh @ ?ih) off n" if "off + n \<le> 54" for off n
    unfolding fb using that by (intro read_le_prefix) simp
  have "length (file_bytes f) = 54 + 64 + 32"
    unfolding fb using tl px by simp
  moreover have "length (headers f) = 54" "length (color_table f) = 64" "length (pixel_data f) = 32"
    using tl px by (simp_all add: f_def)
  moreover have "take 2 (file_bytes f) = [0x42, 0x4D]" unfolding fb by simp
  moreover have "read_le (file_bytes f) 2 4 = 150" "read_le (file_bytes f) 10 4 = 118"
     "read_le (file_bytes f) 14 4 = 40" "read_le (file_bytes f) 18 4 = 8"
     "read_le (file_bytes f) 22 4 = 8" "read_le (file_bytes f) 26 2 = 1"
     "read_le (file_bytes f) 28 2 = 4" "read_le (file_bytes f) 30 4 = 0"
     "read_le (file_bytes f) 46 4 = 16" "read_le (file_bytes f) 50 4 = 16"
    by (simp_all add: rd) (simp_all add: read_le_def)
  ultimately show ?thesis using cb unfolding f_def [symmetric] by blast
qed

theorem create_bmp_one_tile_witness:
  "\<exists>f. create_bmp (replicate 32 0x12) (replicate 16 7) [] 1 1 = Inr f \<and> length (file_bytes f) = 150
     \<and> read_le (file_bytes f) 2 4 = 150"
  using create_bmp_one_tile [of "replicate 16 7" "replicate 32 0x12" "[]"] by auto

subsection \<open>Assembly parser\<close>

lemma find_label_None: "find_label label s = None \<longleftrightarrow> \<not> sublist label s"
  by (induction s) (auto simp: sublist_Cons_right)

text \<open>
  C8: for every text with the label \<open>tile_data:\<close> and without the label
  \<open>palette_data:\<close>, the parser returns the empty palette; \<open>create_bmp\<close> with the empty
  palette, for tile dimensions that fit the header, raises nothing and writes a colour
  table of 64 zero bytes, and so does the script on that text.
\<close>

theorem missing_palette_label:
  assumes "sublist ''tile_data:'' content" "\<not> sublist ''palette_data:'' content"
    and "0 \<le> width_tiles" "0 \<le> height_tiles"
    and "width_tiles * 8 < 2 ^ 32" "height_tiles * 8 < 2 ^ 32"
    and "54 + 64 + (width_tiles * 8 * (height_tiles * 8) div 2) < 2 ^ 32"
  shows "fst (parse_genesis_assembly content) = []
     \<and> (\<exists>f. create_bmp tile_data [] tiles width_tiles height_tiles = Inr f
            \<and> color_table f = replicate 64 0)
     \<and> (\<exists>f. hex2bmp_main content width_tiles height_tiles = Inr f
            \<and> color_table f = replicate 64 0)"
proof -
  have p: "fst (parse_genesis_assembly content) = []"
    using assms(2) by (simp add: parse_genesis_assembly_def section_body_def find_label_None [symmetric])
  have "0 \<le> width_tiles * 8 * (height_tiles * 8)" using assms(3,4) by simp
  then have fs: "0 \<le> 54 + 64 + (width_tiles * 8 * (height_tiles * 8) div 2)"
    by (simp add: pos_imp_zdiv_nonneg_iff)
  have w: "0 \<le> width_tiles * 8" "0 \<le> height_tiles * 8" using assms(3,4) by simp_all
  note h1 = file_header_ok [OF fs assms(7)]
  note h2 = info_header_ok [OF w(1) assms(5) w(2) assms(6)]
  have c: "\<exists>f. create_bmp td [] tl width_tiles height_tiles = Inr f \<and> color_table f = replicate 64 0"
    for td tl
    using create_bmp_total [OF h1 h2, of td "[]" tl] by auto
  obtain td where "parse_genesis_assembly content = ([], td)"
    using p by (cases "parse_genesis_assembly content") simp
  then have "hex2bmp_main content width_tiles height_tiles = create_bmp td [] td width_tiles height_tiles"
    by (simp add: hex2bmp_main_def)
  with p c show ?thesis by metis
qed

theorem missing_palette_label_witness:
  "fst (parse_genesis_assembly (''tile_data:'' @ [CHR 0x0A] @ ''    dc.b $00, $FF'')) = []"
  using missing_palette_label [of "''tile_data:'' @ [CHR 0x0A] @ ''    dc.b $00, $FF''" 1 1]
  by (simp add: sublist_Cons_right)

subsection \<open>Formatter and parser\<close>

lemma hex_digit_upper_props:
  assumes "d < 16"
  shows "is_hex (hex_digit_upper d) \<and> hex_value (hex_digit_upper d) = int d"
proof -
  from assms have "d = 0 \<or> d = 1 \<or> d = 2 \<or> d = 3 \<or> d = 4 \<or> d = 5 \<or> d = 6 \<or> d = 7
      \<or> d = 8 \<or> d = 9 \<or> d = 10 \<or> d = 11 \<or> d = 12 \<or> d = 13 \<or> d = 14 \<or> d = 15"
    by arith
  then show ?thesis
    by (auto simp: hex_digit_upper_def is_hex_def hex_value_def)
qed

lemma is_hex_zero: "is_hex (CHR ''0'')" "hex_value (CHR ''0'') = 0"
  by (simp_all add: is_hex_def hex_value_def)

lemma to_hex_upper_hex: "c \<in> set (to_hex_upper n) \<Longrightarrow> is_hex c"
proof (induction n rule: to_hex_upper.induct)
  case (1 n)
  show ?case
  proof (cases "n < 16")
    case True
    with "1.prems" show ?thesis
      by (subst (asm) to_hex_upper.simps) (simp add: hex_digit_upper_props)
  next
    case False
    with "1.prems" "1.IH" show ?thesis
      by (subst (asm) to_hex_upper.simps) (auto simp: hex_digit_upper_props)
  qed
qed

lemma int16_snoc: "int16 (s @ [c]) = 16 * int16 s + hex_value c"
  by (simp add: int16_def)

lemma int16_to_hex_upper: "int16 (to_hex_upper n) = int n"
proof (induction n rule: to_hex_upper.induct)
  case (1 n)
  show ?case
  proof (cases "n < 16")
    case True
    then show ?thesis
      by (subst to_hex_upper.simps) (simp add: int16_def hex_digit_upper_props)
  next
    case False
    have "int16 (to_hex_upper n) = 16 * int16 (to_hex_upper (n div 16)) + hex_value (hex_digit_upper (n mod 16))"
      using False by (subst to_hex_upper.simps) (simp add: int16_snoc)
    also have "\<dots> = 16 * int (n div 16) + int (n mod 16)"
      using False "1.IH" by (simp add: hex_digit_upper_props)
    also have "\<dots> = int n" by (simp add: zdiv_int zmod_int)
    finally show ?thesis .
  qed
qed

lemma length_to_hex_upper: "0 < w \<Longrightarrow> n < 16 ^ w \<Longrightarrow> length (to_hex_upper n) \<le> w"
proof (induction n arbitrary: w rule: to_hex_upper.induct)
  case (1 n)
  show ?case
  proof (cases "n < 16")
    case True
    with "1.prems" show ?thesis by (subst to_hex_upper.simps) simp
  next
    case False
    obtain v where w: "w = Suc v" using "1.prems"(1) by (cases w) auto
    have "v \<noteq> 0" using False "1.prems"(2) w by (cases v) auto
    moreover have "n div 16 < 16 ^ v" using "1.prems"(2) w by (simp add: less_mult_imp_div_less mult.commute)
    ultimately have "length (to_hex_upper (n div 16)) \<le> v"
      using "1.IH" [OF False, of v] by simp
    then show ?thesis using False w by (subst to_hex_upper.simps) simp
  qed
qed

lemma int16_zeros: "int16 (replicate k (CHR ''0'') @ s) = int16 s"
  by (induction k) (simp_all add: int16_def is_hex_zero)

lemma format_X_props:
  assumes "0 \<le> v" "v < 16 ^ w" "0 < w"
  shows "length (format_X w v) = w" "\<forall>c \<in> set (format_X w v). is_hex c" "int16 (format_X w v) = v"
proof -
  have n: "nat v < 16 ^ w" using assms by (simp add: nat_less_iff)
  have f: "format_X w v = replicate (w - length (to_hex_upper (nat v))) (CHR ''0'') @ to_hex_upper (nat v)"
    using assms by (simp add: format_X_def zero_pad_def)
  show "length (format_X w v) = w"
    unfolding f using length_to_hex_upper [OF assms(3) n] by simp
  show "\<forall>c \<in> set (format_X w v). is_hex c"
    unfolding f by (auto simp: is_hex_zero to_hex_upper_hex)
  show "int16 (format_X w v) = v"
    unfolding f int16_zeros int16_to_hex_upper using assms by simp
qed

lemma py_join_Cons: "py_join sep (x # xs) = x @ concat (map ((@) sep) xs)"
  by (induction sep xs arbitrary: x rule: py_join.induct) simp_all

lemma set_py_join: "c \<in> set (py_join sep xs) \<Longrightarrow> c \<in> set sep \<or> (\<exists>x \<in> set xs. c \<in> set x)"
  by (induction sep xs rule: py_join.induct) auto

lemma is_hex_not:
  assumes "is_hex c"
  shows "c \<noteq> CHR ''$''" "c \<noteq> CHR ''t''" "c \<noteq> CHR 0x0A" "c \<noteq> CHR '',''" "c \<noteq> CHR '' ''"
  using assms by (auto simp: is_hex_def)

lemma scan_other: "c \<noteq> CHR ''$'' \<Longrightarrow> scan_literals lo hi (c # cs) = scan_literals lo hi cs"
  by (simp add: scan_literals.simps(2) Let_def)

lemma scan_skip: "CHR ''$'' \<notin> set pre \<Longrightarrow> scan_literals lo hi (pre @ s) = scan_literals lo hi s"
proof (induction pre)
  case Nil
  show ?case by simp
next
  case (Cons c pre)
  then have "c \<noteq> CHR ''$''" by auto
  then have "scan_literals lo hi ((c # pre) @ s) = scan_literals lo hi (pre @ s)"
    unfolding append_Cons by (rule scan_other)
  with Cons show ?case by simp
qed

lemma scan_word:
  assumes "length d = hi" "\<forall>c \<in> set d. is_hex c" "lo \<le> hi"
  shows "scan_literals lo hi (CHR ''$'' # d @ s) = d # scan_literals lo hi s"
proof -
  have tw: "takeWhile is_hex (take hi (d @ s)) = d"
    using assms(1,2) by (simp add: takeWhile_eq_all_conv)
  show ?thesis
    by (simp only: scan_literals.simps Let_def tw) (simp add: assms)
qed

lemma scan_join:
  assumes "\<forall>d \<in> set ds. length d = hi \<and> (\<forall>c \<in> set d. is_hex c)" "lo \<le> hi"
  shows "scan_literals lo hi (py_join '', '' (map ((#) CHR ''$'') ds) @ s) = ds @ scan_literals lo hi s"
  using assms(1)
proof (induction ds)
  case Nil
  show ?case by simp
next
  case (Cons d ds)
  show ?case
  proof (cases ds)
    case Nil
    with Cons.prems assms(2) show ?thesis by (simp add: scan_word)
  next
    case (Cons e es)
    let ?rest = "py_join '', '' (map ((#) CHR ''$'') ds) @ s"
    have d: "length d = hi" "\<forall>c \<in> set d. is_hex c" using Cons.prems by simp_all
    have "py_join '', '' (map ((#) CHR ''$'') (d # ds)) @ s = CHR ''$'' # d @ ('', '' @ ?rest)"
      using Cons by simp
    then have "scan_literals lo hi (py_join '', '' (map ((#) CHR ''$'') (d # ds)) @ s)
        = scan_literals lo hi (CHR ''$'' # d @ ('', '' @ ?rest))"
      by (rule arg_cong)
    also have "\<dots> = d # scan_literals lo hi ('', '' @ ?rest)"
      using d assms(2) by (rule scan_word)
    also have "scan_literals lo hi ('', '' @ ?rest) = scan_literals lo hi ?rest"
      by (rule scan_skip) simp
    also have "scan_literals lo hi ?rest = ds @ scan_literals lo hi s"
      using Cons.prems by (intro Cons.IH) simp
    finally show ?thesis by simp
  qed
qed

lemma lazy_no_nl: "CHR 0x0A \<notin> set pre \<Longrightarrow> lazy_body (pre @ s) = pre @ lazy_body s"
  by (induction pre) auto

lemma find_skip:
  assumes "label \<noteq> []" "hd label \<notin> set pre"
  shows "find_label label (pre @ s) = find_label label s"
  using assms(2)
proof (induction pre)
  case Nil
  show ?case by simp
next
  case (Cons c pre)
  then have "\<not> prefix label (c # pre @ s)"
    using assms(1) by (cases label) auto
  with Cons show ?case by simp
qed

lemma join_dollar:
  "ws \<noteq> [] \<Longrightarrow> CHR ''$'' # py_join '', $'' ws = py_join '', '' (map ((#) CHR ''$'') ws)"
proof (induction ws)
  case Nil
  then show ?case by simp
next
  case (Cons w ws)
  then show ?case by (cases ws) simp_all
qed

lemma tile_lines_Cons:
  "td \<noteq> [] \<Longrightarrow> tile_lines td =
     (''    dc.b '' @ py_join '', '' (map ((#) CHR ''$'') (take 16 td))) # tile_lines (drop 16 td)"
  by (subst tile_lines.simps) (simp add: join_dollar [symmetric])

lemma tile_lines_Nil: "tile_lines [] = []"
  by (subst tile_lines.simps) simp

lemma words_no_char:
  assumes "\<forall>d \<in> set ds. \<forall>c \<in> set d. is_hex c" "\<not> is_hex x" "x \<noteq> CHR ''$''" "x \<noteq> CHR '',''" "x \<noteq> CHR '' ''"
  shows "x \<notin> set (py_join '', '' (map ((#) CHR ''$'') ds))"
proof
  assume "x \<in> set (py_join '', '' (map ((#) CHR ''$'') ds))"
  then have "x \<in> set '', '' \<or> (\<exists>w \<in> set (map ((#) CHR ''$'') ds). x \<in> set w)"
    by (rule set_py_join)
  with assms show False by auto
qed

lemma not_hex_chars: "\<not> is_hex (CHR 0x0A)" "\<not> is_hex (CHR ''t'')"
  by (simp_all add: is_hex_def)

lemma is_space_chars: "is_space (CHR 0x0A)" "is_space (CHR '' '')" "\<not> is_space (CHR ''d'')"
    "\<not> is_space (CHR '';'')"
  by (simp_all add: is_space_def)

lemma scan_tile_lines:
  assumes "\<forall>d \<in> set td. length d = 2 \<and> (\<forall>c \<in> set d. is_hex c)"
  shows "scan_literals 2 2 (concat (map ((#) (CHR 0x0A)) (tile_lines td))) = td"
  using assms
proof (induction td rule: tile_lines.induct)
  case (1 td)
  show ?case
  proof (cases "td = []")
    case True
    then show ?thesis by (simp add: tile_lines_Nil)
  next
    case False
    let ?rest = "concat (map ((#) (CHR 0x0A)) (tile_lines (drop 16 td)))"
    let ?J = "py_join '', '' (map ((#) CHR ''$'') (take 16 td))"
    have t: "\<forall>d \<in> set (take 16 td). length d = 2 \<and> (\<forall>c \<in> set d. is_hex c)"
      using "1.prems" by (meson in_set_takeD)
    have r: "\<forall>d \<in> set (drop 16 td). length d = 2 \<and> (\<forall>c \<in> set d. is_hex c)"
      using "1.prems" by (meson in_set_dropD)
    have "concat (map ((#) (CHR 0x0A)) (tile_lines td)) = (CHR 0x0A # ''    dc.b '') @ (?J @ ?rest)"
      using False by (simp add: tile_lines_Cons)
    then have "scan_literals 2 2 (concat (map ((#) (CHR 0x0A)) (tile_lines td)))
        = scan_literals 2 2 ((CHR 0x0A # ''    dc.b '') @ (?J @ ?rest))"
      by (rule arg_cong)
    also have "\<dots> = scan_literals 2 2 (?J @ ?rest)"
      by (rule scan_skip) simp
    also have "\<dots> = take 16 td @ scan_literals 2 2 ?rest"
      using t by (intro scan_join) simp_all
    also have "scan_literals 2 2 ?rest = drop 16 td"
      using False r by (rule "1.IH")
    finally show ?thesis by simp
  qed
qed

lemma lazy_lines:
  assumes "\<forall>l \<in> set ls. CHR 0x0A \<notin> set l \<and> l \<noteq> [] \<and> is_space (hd l)" "CHR 0x0A \<notin> set p"
  shows "lazy_body (p @ concat (map ((#) (CHR 0x0A)) ls)) = p @ concat (map ((#) (CHR 0x0A)) ls)"
  using assms
proof (induction ls arbitrary: p)
  case Nil
  then show ?case using lazy_no_nl [of p "[]"] by simp
next
  case (Cons l ls)
  let ?rest = "concat (map ((#) (CHR 0x0A)) ls)"
  have l: "CHR 0x0A \<notin> set l" "l \<noteq> []" "is_space (hd l)" using Cons.prems(1) by simp_all
  have "lazy_body (p @ concat (map ((#) (CHR 0x0A)) (l # ls))) = lazy_body (p @ (CHR 0x0A # (l @ ?rest)))"
    by simp
  also have "\<dots> = p @ lazy_body (CHR 0x0A # (l @ ?rest))"
    using Cons.prems(2) by (rule lazy_no_nl)
  also have "lazy_body (CHR 0x0A # (l @ ?rest)) = CHR 0x0A # lazy_body (l @ ?rest)"
    using l by simp
  also have "lazy_body (l @ ?rest) = l @ ?rest"
    using Cons.prems(1) l(1) by (intro Cons.IH) simp_all
  finally show ?case by simp
qed

lemma tile_lines_shape:
  assumes "\<forall>d \<in> set td. \<forall>c \<in> set d. is_hex c"
  shows "\<forall>l \<in> set (tile_lines td). CHR 0x0A \<notin> set l \<and> l \<noteq> [] \<and> is_space (hd l)"
  using assms
proof (induction td rule: tile_lines.induct)
  case (1 td)
  show ?case
  proof (cases "td = []")
    case True
    then show ?thesis by (simp add: tile_lines_Nil)
  next
    case False
    have t: "\<forall>d \<in> set (take 16 td). \<forall>c \<in> set d. is_hex c"
      using "1.prems" by (meson in_set_takeD)
    have r: "\<forall>d \<in> set (drop 16 td). \<forall>c \<in> set d. is_hex c"
      using "1.prems" by (meson in_set_dropD)
    have "CHR 0x0A \<notin> set (py_join '', '' (map ((#) CHR ''$'') (take 16 td)))"
      using t by (rule words_no_char) (simp_all add: not_hex_chars)
    then show ?thesis
      using "1.IH" [OF False r] False by (simp add: tile_lines_Cons is_space_chars)
  qed
qed

lemma to_decimal_digits: "c \<in> set (to_decimal n) \<Longrightarrow> c \<in> set ''0123456789''"
proof (induction n rule: to_decimal.induct)
  case (1 n)
  have d: "''0123456789'' ! k \<in> set ''0123456789''" if "k < 10" for k
    using that by (intro nth_mem) simp
  show ?case
  proof (cases "n < 10")
    case True
    with "1.prems" d [of n] show ?thesis
      by (subst (asm) to_decimal.simps) simp
  next
    case False
    have "n mod 10 < 10" by simp
    with "1.prems" "1.IH" [OF False] d [of "n mod 10"] False show ?thesis
      by (subst (asm) to_decimal.simps) auto
  qed
qed

lemma str_int_no_t: "CHR ''t'' \<notin> set (str_int n)"
  using to_decimal_digits [of "CHR ''t''"] by (auto simp: str_int_def)

lemma append_single: "((@) [c]) = ((#) c)"
  by (simp add: fun_eq_iff)

lemma format_output_shape:
  "format_output data =
     ''; Genesis Palette Data (16 colors)'' @ CHR 0x0A # ''palette_data:'' @ CHR 0x0A #
     ''    dc.w '' @ py_join '', '' (map ((#) CHR ''$'') (take 8 (map (format_X 4) (data_palette data)))) @
     CHR 0x0A # ''    dc.w '' @
     py_join '', '' (map ((#) CHR ''$'') (take 8 (drop 8 (map (format_X 4) (data_palette data))))) @
     CHR 0x0A # CHR 0x0A # ''; Genesis Tile Data'' @ CHR 0x0A #
     ''; '' @ str_int (data_total_tiles data) @ '' tiles ('' @ str_int (data_tiles_x data) @
     ''x'' @ str_int (data_tiles_y data) @ '')'' @ CHR 0x0A # ''tile_data:'' @
     concat (map ((#) (CHR 0x0A)) (tile_lines (data_tile_data data)))"
  by (simp add: format_output_def Let_def py_join_Cons take_map drop_map comp_def append_single)

lemma lazy_step_space: "is_space c \<Longrightarrow> lazy_body (CHR 0x0A # c # s) = CHR 0x0A # lazy_body (c # s)"
  by simp

lemma lazy_stop: "\<not> is_space c \<Longrightarrow> lazy_body (CHR 0x0A # c # s) = []"
  by simp

lemma palette_section:
  assumes "CHR 0x0A \<notin> set J0" "CHR 0x0A \<notin> set J1"
  shows "section_body ''palette_data:''
           (''; Genesis Palette Data (16 colors)'' @ CHR 0x0A # ''palette_data:'' @ CHR 0x0A #
            ''    dc.w '' @ J0 @ CHR 0x0A # ''    dc.w '' @ J1 @
            CHR 0x0A # CHR 0x0A # ''; Genesis Tile Data'' @ rest)
         = Some (''dc.w '' @ J0 @ CHR 0x0A # ''    dc.w '' @ J1 @ [CHR 0x0A])"
proof -
  let ?R2 = "CHR 0x0A # CHR 0x0A # ''; Genesis Tile Data'' @ rest"
  let ?R1 = "CHR 0x0A # ''    dc.w '' @ J1 @ ?R2"
  have f: "find_label ''palette_data:''
           (''; Genesis Palette Data (16 colors)'' @ CHR 0x0A # ''palette_data:'' @ CHR 0x0A #
            ''    dc.w '' @ J0 @ ?R1) = Some (CHR 0x0A # ''    dc.w '' @ J0 @ ?R1)"
    by simp
  have d: "dropWhile is_space (CHR 0x0A # ''    dc.w '' @ J0 @ ?R1) = (''dc.w '' @ J0) @ ?R1"
    by (simp add: is_space_chars)
  have "CHR 0x0A \<notin> set (''dc.w '' @ J0)" using assms(1) by simp
  then have l1: "lazy_body ((''dc.w '' @ J0) @ ?R1) = (''dc.w '' @ J0) @ lazy_body ?R1"
    by (rule lazy_no_nl)
  have "lazy_body ?R1 = CHR 0x0A # lazy_body ((''    dc.w '' @ J1) @ ?R2)"
    using lazy_step_space [OF is_space_chars(2)] by simp
  also have "lazy_body ((''    dc.w '' @ J1) @ ?R2) = (''    dc.w '' @ J1) @ lazy_body ?R2"
    using assms(2) by (intro lazy_no_nl) simp
  also have "lazy_body ?R2 = CHR 0x0A # lazy_body (CHR 0x0A # ''; Genesis Tile Data'' @ rest)"
    using lazy_step_space [OF is_space_chars(1)] by simp
  also have "lazy_body (CHR 0x0A # ''; Genesis Tile Data'' @ rest) = []"
    using lazy_stop [OF is_space_chars(4)] by simp
  finally have l2: "lazy_body ?R1 = CHR 0x0A # ''    dc.w '' @ J1 @ [CHR 0x0A]" by simp
  show ?thesis
    unfolding section_body_def f option.case d l1 l2 by simp
qed

lemma tile_label:
  assumes "CHR ''t'' \<notin> set J0" "CHR ''t'' \<notin> set J1" "CHR ''t'' \<notin> set S1"
    "CHR ''t'' \<notin> set S2" "CHR ''t'' \<notin> set S3"
  shows "find_label ''tile_data:''
           (''; Genesis Palette Data (16 colors)'' @ CHR 0x0A # ''palette_data:'' @ CHR 0x0A #
            ''    dc.w '' @ J0 @ CHR 0x0A # ''    dc.w '' @ J1 @
            CHR 0x0A # CHR 0x0A # ''; Genesis Tile Data'' @ CHR 0x0A #
            ''; '' @ S1 @ '' tiles ('' @ S2 @ ''x'' @ S3 @ '')'' @ CHR 0x0A # ''tile_data:'' @ TL)
         = Some TL"
proof -
  let ?lab = "''tile_data:''"
  have sk: "find_label ?lab (p @ s) = find_label ?lab s" if "CHR ''t'' \<notin> set p" for p s
    using that by (intro find_skip) simp_all
  let ?e6 = "'')'' @ CHR 0x0A # ''tile_data:'' @ TL"
  let ?e5 = "''x'' @ S3 @ ?e6"
  let ?e4 = "'' tiles ('' @ S2 @ ?e5"
  let ?e3 = "CHR 0x0A # CHR 0x0A # ''; Genesis Tile Data'' @ CHR 0x0A # ''; '' @ S1 @ ?e4"
  let ?e2 = "CHR 0x0A # ''    dc.w '' @ J1 @ ?e3"
  have "find_label ?lab
           (''; Genesis Palette Data (16 colors)'' @ CHR 0x0A # ''palette_data:'' @ CHR 0x0A #
            ''    dc.w '' @ J0 @ ?e2) = find_label ?lab (J0 @ ?e2)"
    by simp
  also have "\<dots> = find_label ?lab ?e2" using assms(1) by (rule sk)
  also have "\<dots> = find_label ?lab (J1 @ ?e3)" by simp
  also have "\<dots> = find_label ?lab ?e3" using assms(2) by (rule sk)
  also have "\<dots> = find_label ?lab (S1 @ ?e4)" by simp
  also have "\<dots> = find_label ?lab ?e4" using assms(3) by (rule sk)
  also have "\<dots> = find_label ?lab (S2 @ ?e5)" by simp
  also have "\<dots> = find_label ?lab ?e5" using assms(4) by (rule sk)
  also have "\<dots> = find_label ?lab (S3 @ ?e6)" by simp
  also have "\<dots> = find_label ?lab ?e6" using assms(5) by (rule sk)
  also have "\<dots> = Some TL" by simp
  finally show ?thesis by simp
qed

lemma tile_section_scan:
  assumes "\<forall>d \<in> set td. length d = 2 \<and> (\<forall>c \<in> set d. is_hex c)"
  shows "scan_literals 2 2
           (lazy_body (dropWhile is_space (concat (map ((#) (CHR 0x0A)) (tile_lines td))))) = td"
proof (cases "td = []")
  case True
  then show ?thesis by (simp add: tile_lines_Nil)
next
  case False
  let ?J = "py_join '', '' (map ((#) CHR ''$'') (take 16 td))"
  let ?ls = "tile_lines (drop 16 td)"
  let ?rest = "concat (map ((#) (CHR 0x0A)) ?ls)"
  have hx: "\<forall>d \<in> set td. \<forall>c \<in> set d. is_hex c" using assms by simp
  have t: "\<forall>d \<in> set (take 16 td). \<forall>c \<in> set d. is_hex c"
    using hx by (meson in_set_takeD)
  have r: "\<forall>d \<in> set (drop 16 td). \<forall>c \<in> set d. is_hex c"
    using hx by (meson in_set_dropD)
  have nl: "CHR 0x0A \<notin> set ?J"
    using t by (rule words_no_char) (simp_all add: not_hex_chars)
  have TL: "concat (map ((#) (CHR 0x0A)) (tile_lines td)) = (CHR 0x0A # ''    dc.b '') @ (?J @ ?rest)"
    using False by (simp add: tile_lines_Cons)
  have d: "dropWhile is_space ((CHR 0x0A # ''    dc.b '') @ (?J @ ?rest)) = (''dc.b '' @ ?J) @ ?rest"
    by (simp add: is_space_chars)
  have "CHR 0x0A \<notin> set (''dc.b '' @ ?J)" using nl by simp
  with tile_lines_shape [OF r]
  have l: "lazy_body ((''dc.b '' @ ?J) @ ?rest) = (''dc.b '' @ ?J) @ ?rest"
    by (rule lazy_lines)
  have "scan_literals 2 2 (''dc.b '' @ (?J @ ?rest)) = scan_literals 2 2 (?J @ ?rest)"
    by (rule scan_skip) simp
  moreover have "scan_literals 2 2 ((CHR 0x0A # ''    dc.b '') @ (?J @ ?rest)) = scan_literals 2 2 (?J @ ?rest)"
    by (rule scan_skip) simp
  ultimately have "scan_literals 2 2 ((''dc.b '' @ ?J) @ ?rest)
      = scan_literals 2 2 (concat (map ((#) (CHR 0x0A)) (tile_lines td)))"
    unfolding TL by simp
  then show ?thesis
    unfolding TL d l unfolding TL [symmetric] using scan_tile_lines [OF assms] by simp
qed

lemma palette_section_scan:
  assumes "length W = 16" "\<forall>d \<in> set W. length d = 4 \<and> (\<forall>c \<in> set d. is_hex c)"
  shows "scan_literals 3 4
     (''dc.w '' @ py_join '', '' (map ((#) CHR ''$'') (take 8 W)) @ CHR 0x0A # ''    dc.w '' @
        py_join '', '' (map ((#) CHR ''$'') (take 8 (drop 8 W))) @ [CHR 0x0A]) = W"
proof -
  let ?J0 = "py_join '', '' (map ((#) CHR ''$'') (take 8 W))"
  let ?J1 = "py_join '', '' (map ((#) CHR ''$'') (take 8 (drop 8 W)))"
  have a: "\<forall>d \<in> set (take 8 W). length d = 4 \<and> (\<forall>c \<in> set d. is_hex c)"
    using assms(2) by (meson in_set_takeD)
  have b: "\<forall>d \<in> set (take 8 (drop 8 W)). length d = 4 \<and> (\<forall>c \<in> set d. is_hex c)"
    using assms(2) by (meson in_set_takeD in_set_dropD)
  have "scan_literals 3 4 (''dc.w '' @ (?J0 @ (CHR 0x0A # ''    dc.w '') @ (?J1 @ [CHR 0x0A])))
      = scan_literals 3 4 (?J0 @ (CHR 0x0A # ''    dc.w '') @ (?J1 @ [CHR 0x0A]))"
    by (rule scan_skip) simp
  also have "\<dots> = take 8 W @ scan_literals 3 4 ((CHR 0x0A # ''    dc.w '') @ (?J1 @ [CHR 0x0A]))"
    using a by (intro scan_join) simp_all
  also have "scan_literals 3 4 ((CHR 0x0A # ''    dc.w '') @ (?J1 @ [CHR 0x0A]))
      = scan_literals 3 4 (?J1 @ [CHR 0x0A])"
    by (rule scan_skip) simp
  also have "\<dots> = take 8 (drop 8 W) @ scan_literals 3 4 [CHR 0x0A]"
    using b by (intro scan_join) simp_all
  also have "scan_literals 3 4 [CHR 0x0A] = []"
    using scan_skip [of "[CHR 0x0A]" 3 4 "[]"] by simp
  finally have "scan_literals 3 4 (''dc.w '' @ (?J0 @ (CHR 0x0A # ''    dc.w '') @ (?J1 @ [CHR 0x0A])))
      = take 8 W @ take 8 (drop 8 W)" by simp
  moreover have "take 8 W @ take 8 (drop 8 W) = W"
    using assms(1) by (metis append_take_drop_id take_all length_drop diff_le_self
        add_diff_cancel_left' numeral_Bit0 order_refl)
  ultimately show ?thesis by simp
qed

lemma format_X_word:
  assumes "0 \<le> c" "c \<le> 511"
  shows "length (format_X 4 c) = 4 \<and> (\<forall>x \<in> set (format_X 4 c). is_hex x) \<and> int16 (format_X 4 c) = c"
proof -
  have "c < 16 ^ 4" using assms by simp
  from format_X_props [OF assms(1) this] show ?thesis by simp
qed

lemma format_X_byte:
  assumes "0 \<le> b" "b \<le> 255"
  shows "length (format_X 2 b) = 2 \<and> (\<forall>x \<in> set (format_X 2 b). is_hex x) \<and> int16 (format_X 2 b) = b"
proof -
  have "b < 16 ^ 2" using assms by simp
  from format_X_props [OF assms(1) this] show ?thesis by simp
qed

text \<open>
  C2: for every palette of exactly 16 values from 0 to 511 and every list of byte
  values from 0 to 255, formatted as the tile codec formats them, parsing the document
  that \<open>format_output\<close> writes returns exactly that palette and exactly those bytes,
  whatever the three numbers of the comment line are.
\<close>

theorem parse_format_roundtrip:
  assumes "length pal = 16" "\<forall>c \<in> set pal. 0 \<le> c \<and> c \<le> 511" "\<forall>b \<in> set bs. 0 \<le> b \<and> b \<le> 255"
  shows "parse_genesis_assembly
           (format_output \<lparr>data_palette = pal, data_tile_data = map (format_X 2) bs,
              data_tiles_x = tx, data_tiles_y = ty, data_total_tiles = n\<rparr>) = (pal, bs)"
proof -
  define W where "W = map (format_X 4) pal"
  define T where "T = map (format_X 2) bs"
  define J0 where "J0 = py_join '', '' (map ((#) CHR ''$'') (take 8 W))"
  define J1 where "J1 = py_join '', '' (map ((#) CHR ''$'') (take 8 (drop 8 W)))"
  define TL where "TL = concat (map ((#) (CHR 0x0A)) (tile_lines T))"
  define doc where "doc = format_output \<lparr>data_palette = pal, data_tile_data = T,
              data_tiles_x = tx, data_tiles_y = ty, data_total_tiles = n\<rparr>"
  have Wp: "\<forall>d \<in> set W. length d = 4 \<and> (\<forall>c \<in> set d. is_hex c)"
    unfolding W_def using assms(2) format_X_word by auto
  have Tp: "\<forall>d \<in> set T. length d = 2 \<and> (\<forall>c \<in> set d. is_hex c)"
    unfolding T_def using assms(3) format_X_byte by auto
  have iW: "map int16 W = pal"
    unfolding W_def map_map using assms(2) format_X_word by (intro map_idI) simp
  have iT: "map int16 T = bs"
    unfolding T_def map_map using assms(3) format_X_byte by (intro map_idI) simp
  have lW: "length W = 16" using assms(1) by (simp add: W_def)
  have h0: "\<forall>d \<in> set (take 8 W). \<forall>c \<in> set d. is_hex c" using Wp by (meson in_set_takeD)
  have h1: "\<forall>d \<in> set (take 8 (drop 8 W)). \<forall>c \<in> set d. is_hex c"
    using Wp by (meson in_set_takeD in_set_dropD)
  have nl: "CHR 0x0A \<notin> set J0" "CHR 0x0A \<notin> set J1"
    unfolding J0_def J1_def
    by (rule words_no_char [OF h0], simp_all add: not_hex_chars)
       (rule words_no_char [OF h1], simp_all add: not_hex_chars)
  have nt: "CHR ''t'' \<notin> set J0" "CHR ''t'' \<notin> set J1"
    unfolding J0_def J1_def
    by (rule words_no_char [OF h0], simp_all add: not_hex_chars)
       (rule words_no_char [OF h1], simp_all add: not_hex_chars)
  have shape: "doc =
     ''; Genesis Palette Data (16 colors)'' @ CHR 0x0A # ''palette_data:'' @ CHR 0x0A #
     ''    dc.w '' @ J0 @ CHR 0x0A # ''    dc.w '' @ J1 @
     CHR 0x0A # CHR 0x0A # ''; Genesis Tile Data'' @ CHR 0x0A #
     ''; '' @ str_int n @ '' tiles ('' @ str_int tx @ ''x'' @ str_int ty @ '')'' @ CHR 0x0A #
     ''tile_data:'' @ TL"
    unfolding doc_def format_output_shape J0_def J1_def TL_def W_def by simp
  have p: "section_body ''palette_data:'' doc
      = Some (''dc.w '' @ J0 @ CHR 0x0A # ''    dc.w '' @ J1 @ [CHR 0x0A])"
    unfolding shape using nl by (rule palette_section)
  have "find_label ''tile_data:'' doc = Some TL"
    unfolding shape using nt str_int_no_t str_int_no_t str_int_no_t by (rule tile_label)
  then have t: "section_body ''tile_data:'' doc = Some (lazy_body (dropWhile is_space TL))"
    by (simp add: section_body_def)
  have sp: "scan_literals 3 4 (''dc.w '' @ J0 @ CHR 0x0A # ''    dc.w '' @ J1 @ [CHR 0x0A]) = W"
    unfolding J0_def J1_def using lW Wp by (rule palette_section_scan)
  have st: "scan_literals 2 2 (lazy_body (dropWhile is_space TL)) = T"
    unfolding TL_def using Tp by (rule tile_section_scan)
  have "parse_genesis_assembly doc = (pal, bs)"
    unfolding parse_genesis_assembly_def Let_def p t option.case sp st iW iT by (rule refl)
  then show ?thesis unfolding doc_def T_def .
qed

theorem parse_format_roundtrip_witness:
  "parse_genesis_assembly
     (format_output \<lparr>data_palette = [7, 0, 511, 56, 0, 0, 0, 0, 0, 0, 0, 0, 0, 0, 0, 448],
        data_tile_data = map (format_X 2) [0, 18, 255], data_tiles_x = 1, data_tiles_y = 1,
        data_total_tiles = 1\<rparr>)
   = ([7, 0, 511, 56, 0, 0, 0, 0, 0, 0, 0, 0, 0, 0, 0, 448], [0, 18, 255])"
  using parse_format_roundtrip [of "[7, 0, 511, 56, 0, 0, 0, 0, 0, 0, 0, 0, 0, 0, 0, 448]" "[0, 18, 255]" 1 1 1]
  by simp

end
